theory Spec2Isabelle
  imports Main "HOL-Library.Word" "HOL-Library.AList"
begin

unbundle bit_operations_syntax

section \<open>Values, functions and client handlers\<close>

text \<open>
  Objects live in stores and are named by their address; \<open>===\<close> on objects is equality
  of addresses. A JavaScript function object is named by its reference \<open>fnref\<close>; what
  the function does when it is called, and the text \<open>fn.toString()\<close> returns, belong to
  the client program and are looked up in an environment.
\<close>

type_synonym addr = nat
type_synonym fnref = nat

text \<open>
  The values a client passes around: the primitives, an ordinary object with its own
  data properties (\<open>VObj\<close>, prototype \<open>Object.prototype\<close>), an object without a
  prototype (\<open>VBare\<close>, made by \<open>Object.create(null)\<close>), a channel object and a
  function. The properties of the two kinds of object hold primitives, looked up with
  \<open>map_of\<close>.
\<close>

datatype prim =
    PUndefined
  | PNull
  | PNum int
  | PBool bool
  | PStr string

datatype val =
    VUndefined
  | VNull
  | VNum int
  | VBool bool
  | VStr string
  | VObj "(string \<times> prim) list"
  | VBare "(string \<times> prim) list"
  | VChan addr
  | VFun fnref

text \<open>
  What is thrown is always an \<open>Error\<close> object: the one \<open>Channel.subscribe\<close> makes for
  a function passed twice, one a handler makes itself (\<open>throw new Error(msg)\<close>), or a
  \<open>TypeError\<close> of the language.
\<close>

datatype error =
    DuplicateError fnref string
  | ClientError string
  | TypeError

text \<open>
  A handler is client code. It is modelled as a straight-line script of the things a
  client can do with the dispatcher from inside a handler: produce an effect of its own
  (\<open>Emit\<close>), throw, call \<open>stopPropagation\<close> on the channel it received as its last
  argument, and call \<open>publish\<close>, \<open>subscribe\<close> or \<open>unsubscribe\<close> of the \<open>PubSub\<close>.
  \<open>DoUnsubscribe\<close> drops what \<open>unsubscribe\<close> returns; \<open>TellUnsubscribe\<close> shows it as an
  effect, \<open>true\<close> or \<open>false\<close>. The main program of the client is such a script too, run
  with no arguments.
\<close>

datatype cmd =
    Emit string
  | ThrowErr string
  | StopPropagation
  | DoPublish string "val list"
  | DoSubscribe string fnref "int option" val
  | DoUnsubscribe string fnref
  | TellUnsubscribe string fnref

record env =
  fn_body :: "fnref \<Rightarrow> cmd list"
  fn_source :: "fnref \<Rightarrow> nat list"
  fn_name :: "fnref \<Rightarrow> string"

section \<open>Subscription, DLLNode, Channel\<close>

record Subscription =
  sub_id :: int
  fn :: fnref
  "context" :: val

record DLLNode =
  prev :: "addr option"
  "next" :: "addr option"
  subscription :: Subscription
  priority :: nat

record Channel =
  namespace :: string
  commandMask :: "32 word"
  priorityMatrix :: "addr option list"
  fnHashMap :: "(int \<times> addr list) list"
  callingNode :: "addr option"

text \<open>A \<open>setTimeout(f, 0, x)\<close> of the source: the bound method and its argument.\<close>

datatype task =
    TPublish addr "val list"
  | TUnsubscribe addr fnref

text \<open>
  The state: the store of nodes, the store of channel objects, the \<open>_channels\<close> table of
  the \<open>PubSub\<close>, the timer queue, and what the outside world observes: the handler calls
  made (function and argument list), the lines written by \<open>console.error\<close> (the error and
  the subscriber), and the effects of the handlers themselves.
\<close>

record state =
  nodes :: "DLLNode list"
  chans :: "Channel list"
  channels :: "(string \<times> addr) list"
  timers :: "task list"
  calls :: "(fnref \<times> val list) list"
  console :: "(error \<times> fnref) list"
  effects :: "string list"

definition CLEAR_BITS :: "32 word" where "CLEAR_BITS = 0"
definition SIG_INT :: "32 word" where "SIG_INT = 1"
definition PUBLISHING :: "32 word" where "PUBLISHING = 2"

definition init_state :: state where
  "init_state = \<lparr>nodes = [], chans = [], channels = [], timers = [], calls = [],
                 console = [], effects = []\<rparr>"

definition new_Channel :: "string \<Rightarrow> Channel" where
  "new_Channel name = \<lparr>namespace = name, commandMask = 0, priorityMatrix = [],
                        fnHashMap = [], callingNode = None\<rparr>"

definition upd_chan :: "addr \<Rightarrow> (Channel \<Rightarrow> Channel) \<Rightarrow> state \<Rightarrow> state" where
  "upd_chan c f s = s\<lparr>chans := (chans s)[c := f (chans s ! c)]\<rparr>"

definition upd_node :: "addr \<Rightarrow> (DLLNode \<Rightarrow> DLLNode) \<Rightarrow> state \<Rightarrow> state" where
  "upd_node a f s = s\<lparr>nodes := (nodes s)[a := f (nodes s ! a)]\<rparr>"

subsection \<open>Subscription.hashStr and hashFn\<close>

text \<open>
  \<open>hash = ((hash << 5) - hash) + str.charCodeAt(idx); hash |= 0\<close> on the UTF-16 code
  units of the string. The value is kept in 32 bits and read as a signed integer; the
  decimal string the source returns names that integer.
\<close>

definition hashStr :: "nat list \<Rightarrow> int" where
  "hashStr str =
     sint (fold (\<lambda>code hash. (push_bit 5 hash - hash) + of_nat code) str (0 :: 32 word))"

definition is_space :: "nat \<Rightarrow> bool" where
  "is_space u \<longleftrightarrow>
     u \<in> set [9, 10, 11, 12, 13, 32, 160, 5760, 8232, 8233, 8239, 8287, 12288, 65279]
     \<or> (8192 \<le> u \<and> u \<le> 8202)"

definition hashFn :: "env \<Rightarrow> fnref \<Rightarrow> int" where
  "hashFn e f = hashStr (filter (\<lambda>u. \<not> is_space u) (fn_source e f))"

subsection \<open>Subscription.toString\<close>

text \<open>
  \<open>toString\<close> returns
  \<open>`${this.context ? this.context.constructor.name : this.context}::${this.fn.name || "anonymous"}`\<close>.
  Reading \<open>.name\<close> of \<open>undefined\<close> or \<open>null\<close> throws a \<open>TypeError\<close>, which is the
  result \<open>None\<close> here: it happens when the context is an object whose \<open>constructor\<close>
  is \<open>undefined\<close> or \<open>null\<close>, by a property of its own or, without a prototype, by
  having none. A primitive finds \<open>constructor\<close> on the prototype of its wrapper, and a
  primitive held as \<open>constructor\<close> has no \<open>name\<close>, which prints as \<open>undefined\<close>.
\<close>

fun truthy :: "val \<Rightarrow> bool" where
  "truthy VUndefined = False"
| "truthy VNull = False"
| "truthy (VNum n) = (n \<noteq> 0)"
| "truthy (VBool b) = b"
| "truthy (VStr str) = (str \<noteq> [])"
| "truthy (VObj ps) = True"
| "truthy (VBare ps) = True"
| "truthy (VChan c) = True"
| "truthy (VFun f) = True"

text \<open>\<open>p.name\<close> for a primitive \<open>p\<close>, as a template literal prints it.\<close>

fun prim_name :: "prim \<Rightarrow> string option" where
  "prim_name PUndefined = None"
| "prim_name PNull = None"
| "prim_name (PNum n) = Some ''undefined''"
| "prim_name (PBool b) = Some ''undefined''"
| "prim_name (PStr str) = Some ''undefined''"

text \<open>\<open>v.constructor.name\<close>, as a template literal prints it.\<close>

fun constructor_name :: "val \<Rightarrow> string option" where
  "constructor_name VUndefined = None"
| "constructor_name VNull = None"
| "constructor_name (VNum n) = Some ''Number''"
| "constructor_name (VBool b) = Some ''Boolean''"
| "constructor_name (VStr str) = Some ''String''"
| "constructor_name (VObj ps) =
     (case map_of ps ''constructor'' of None \<Rightarrow> Some ''Object'' | Some p \<Rightarrow> prim_name p)"
| "constructor_name (VBare ps) =
     (case map_of ps ''constructor'' of None \<Rightarrow> None | Some p \<Rightarrow> prim_name p)"
| "constructor_name (VChan c) = Some ''Channel''"
| "constructor_name (VFun f) = Some ''Function''"

text \<open>How a template literal prints a value that is not truthy.\<close>

fun falsy_text :: "val \<Rightarrow> string" where
  "falsy_text VNull = ''null''"
| "falsy_text (VNum n) = ''0''"
| "falsy_text (VBool b) = ''false''"
| "falsy_text (VStr str) = str"
| "falsy_text v = ''undefined''"

definition Subscription_toString :: "env \<Rightarrow> Subscription \<Rightarrow> string option" where
  "Subscription_toString e sub =
     (case (if truthy (context sub) then constructor_name (context sub)
            else Some (falsy_text (context sub))) of
        None \<Rightarrow> None
      | Some c \<Rightarrow>
          Some (c @ ''::'' @
                (if fn_name e (fn sub) \<noteq> [] then fn_name e (fn sub) else ''anonymous'')))"

subsection \<open>The sparse array of bucket heads\<close>

text \<open>Reading a hole or past the end gives \<open>undefined\<close>; writing past the end extends.\<close>

definition matrix_get :: "addr option list \<Rightarrow> nat \<Rightarrow> addr option" where
  "matrix_get m p = (if p < length m then m ! p else None)"

definition matrix_set :: "addr option list \<Rightarrow> nat \<Rightarrow> addr option \<Rightarrow> addr option list" where
  "matrix_set m p v =
     (if p < length m then m[p := v] else m @ replicate (p - length m) None @ [v])"

subsection \<open>Channel.hasSubscribers, Channel.interrupt\<close>

definition hasSubscribers :: "addr \<Rightarrow> state \<Rightarrow> bool" where
  "hasSubscribers c s \<longleftrightarrow> fnHashMap (chans s ! c) \<noteq> []"

definition interrupt :: "addr \<Rightarrow> state \<Rightarrow> state" where
  "interrupt c s = upd_chan c (\<lambda>ch. ch\<lparr>commandMask := commandMask ch OR SIG_INT\<rparr>) s"

subsection \<open>Channel.subscribe\<close>

text \<open>\<open>while (last.next) last = last.next\<close>: no value when the walk never ends.\<close>

partial_function (option) last_node :: "DLLNode list \<Rightarrow> addr \<Rightarrow> addr option" where
  "last_node h a = (case next (h ! a) of None \<Rightarrow> Some a | Some n \<Rightarrow> last_node h n)"

definition link_node :: "addr \<Rightarrow> addr \<Rightarrow> nat \<Rightarrow> state \<Rightarrow> state option" where
  "link_node c a prio s =
     (case matrix_get (priorityMatrix (chans s ! c)) prio of
        Some head \<Rightarrow>
          (case last_node (nodes s) head of
             None \<Rightarrow> None
           | Some tail \<Rightarrow>
               Some (upd_node a (\<lambda>n. n\<lparr>prev := Some tail\<rparr>)
                      (upd_node tail (\<lambda>n. n\<lparr>next := Some a\<rparr>) s)))
      | None \<Rightarrow>
          Some (upd_chan c
                 (\<lambda>ch. ch\<lparr>priorityMatrix := matrix_set (priorityMatrix ch) prio (Some a)\<rparr>) s))"

definition Channel_subscribe ::
  "env \<Rightarrow> addr \<Rightarrow> fnref \<Rightarrow> nat \<Rightarrow> val \<Rightarrow> state \<Rightarrow> ((error + unit) \<times> state) option" where
  "Channel_subscribe e c f prio ctx s =
     (let a = length (nodes s);
          k = hashFn e f;
          s1 = s\<lparr>nodes := nodes s @
                 [\<lparr>prev = None, next = None,
                   subscription = \<lparr>sub_id = k, fn = f, context = ctx\<rparr>,
                   priority = prio\<rparr>]\<rparr>;
          fnArray = (case map_of (fnHashMap (chans s1 ! c)) k of None \<Rightarrow> [] | Some ns \<Rightarrow> ns)
      in case find (\<lambda>node. fn (subscription (nodes s1 ! node)) = f) fnArray of
           Some node \<Rightarrow>
             (case Subscription_toString e (subscription (nodes s1 ! node)) of
                None \<Rightarrow> Some (Inl TypeError, s1)
              | Some str \<Rightarrow> Some (Inl (DuplicateError f (namespace (chans s1 ! c))), s1))
         | None \<Rightarrow>
             (case link_node c a prio
                     (upd_chan c (\<lambda>ch. ch\<lparr>fnHashMap :=
                                    AList.update k (fnArray @ [a]) (fnHashMap ch)\<rparr>) s1) of
                None \<Rightarrow> None
              | Some s2 \<Rightarrow> Some (Inr (), s2)))"

subsection \<open>Channel.unsubscribe\<close>

text \<open>The \<open>for\<close> loop over \<open>fnArray\<close>: the first index whose node holds \<open>f\<close>.\<close>

fun find_fn :: "DLLNode list \<Rightarrow> fnref \<Rightarrow> addr list \<Rightarrow> nat \<Rightarrow> (nat \<times> addr) option" where
  "find_fn h f [] idx = None"
| "find_fn h f (node # rest) idx =
     (if fn (subscription (h ! node)) \<noteq> f then find_fn h f rest (Suc idx)
      else Some (idx, node))"

definition unlink :: "addr \<Rightarrow> addr \<Rightarrow> state \<Rightarrow> state" where
  "unlink c node s =
     (case prev (nodes s ! node) of
        None \<Rightarrow>
          (let s1 = (case next (nodes s ! node) of
                       Some nx \<Rightarrow> upd_node nx (\<lambda>n. n\<lparr>prev := None\<rparr>) s
                     | None \<Rightarrow> s);
               s2 = upd_chan c
                      (\<lambda>ch. ch\<lparr>priorityMatrix :=
                          matrix_set (priorityMatrix ch) (priority (nodes s1 ! node))
                            (next (nodes s1 ! node))\<rparr>) s1
           in upd_node node (\<lambda>n. n\<lparr>next := None\<rparr>) s2)
      | Some p \<Rightarrow>
          (let s1 = upd_node p (\<lambda>n. n\<lparr>next := next (nodes s ! node)\<rparr>) s;
               s2 = (case next (nodes s1 ! node) of
                       Some nx \<Rightarrow>
                         upd_node node (\<lambda>n. n\<lparr>next := None\<rparr>)
                           (upd_node nx (\<lambda>n. n\<lparr>prev := prev (nodes s1 ! node)\<rparr>) s1)
                     | None \<Rightarrow> s1)
           in upd_node node (\<lambda>n. n\<lparr>prev := None\<rparr>) s2))"

definition Channel_unsubscribe :: "env \<Rightarrow> addr \<Rightarrow> fnref \<Rightarrow> state \<Rightarrow> bool \<times> state" where
  "Channel_unsubscribe e c f s =
     (let k = hashFn e f in
      case map_of (fnHashMap (chans s ! c)) k of
        None \<Rightarrow> (False, s)
      | Some fnArray \<Rightarrow>
          (case find_fn (nodes s) f fnArray 0 of
             None \<Rightarrow> (False, s)
           | Some (idx, node) \<Rightarrow>
               if callingNode (chans s ! c) = Some node
                    \<and> commandMask (chans s ! c) AND SIG_INT = 0
               then (False, s\<lparr>timers := timers s @ [TUnsubscribe c f]\<rparr>)
               else
                 (True,
                  upd_chan c
                    (\<lambda>ch. ch\<lparr>fnHashMap :=
                       (if length fnArray \<le> 1 then AList.delete k (fnHashMap ch)
                        else AList.update k (take idx fnArray @ drop (Suc idx) fnArray)
                               (fnHashMap ch))\<rparr>)
                    (unlink c node s))))"

section \<open>PubSub.subscribe and PubSub.unsubscribe\<close>

definition PubSub_subscribe ::
  "env \<Rightarrow> string \<Rightarrow> fnref \<Rightarrow> int option \<Rightarrow> val \<Rightarrow> state
     \<Rightarrow> ((error + addr \<times> fnref) \<times> state) option" where
  "PubSub_subscribe e channelName f prio ctx s =
     (let (c, s1) =
            (case map_of (channels s) channelName of
               Some c \<Rightarrow> (c, s)
             | None \<Rightarrow>
                 (length (chans s),
                  s\<lparr>chans := chans s @ [new_Channel channelName],
                    channels := AList.update channelName (length (chans s)) (channels s)\<rparr>));
          suggestedPriority = (case prio of Some p \<Rightarrow> p | None \<Rightarrow> 4)
      in case Channel_subscribe e c f (nat (max 0 (min suggestedPriority 4))) ctx s1 of
           None \<Rightarrow> None
         | Some (Inl err, s2) \<Rightarrow> Some (Inl err, s2)
         | Some (Inr u, s2) \<Rightarrow> Some (Inr (c, f), s2))"

definition PubSub_unsubscribe :: "env \<Rightarrow> string \<Rightarrow> fnref \<Rightarrow> state \<Rightarrow> bool \<times> state" where
  "PubSub_unsubscribe e channelName f s =
     (case map_of (channels s) channelName of
        None \<Rightarrow> (False, s)
      | Some c \<Rightarrow>
          (let (didUnsubscribe, s1) = Channel_unsubscribe e c f s
           in if didUnsubscribe \<and> \<not> hasSubscribers c s1
              then (didUnsubscribe, s1\<lparr>channels := AList.delete channelName (channels s1)\<rparr>)
              else (didUnsubscribe, s1)))"

section \<open>Publishing\<close>

text \<open>
  \<open>Channel.publish\<close> calls the handlers, and a handler may call back into the
  \<open>PubSub\<close>, so publishing and running a handler are one recursion. A handler can
  keep the loop going for ever (two handlers of one bucket that remove and re-add each
  other), so every call takes fuel, and \<open>None\<close> stands for a run that did not finish
  within it. The recursion is written once, over the kind of call:
  \<^item> \<open>Handler args cs\<close>: the rest \<open>cs\<close> of the body of a handler called with \<open>args\<close>;
  \<^item> \<open>PubSubPublish name args\<close>: \<open>PubSub.publish(name, ...args)\<close>;
  \<^item> \<open>ChannelPublish c args\<close>: \<open>Channel.publish(args)\<close> on the channel object \<open>c\<close>;
  \<^item> \<open>For c args idx\<close>: the \<open>for\<close> loop of \<open>Channel.publish\<close> from bucket \<open>idx\<close>,
    and the statement after it;
  \<^item> \<open>While c args idx node\<close>: the \<open>while\<close> loop over bucket \<open>idx\<close> from \<open>node\<close>,
    followed by the rest of the \<open>for\<close> loop.
  The result is the error thrown, if any, and the new state. A handler throws what its
  script throws and what a \<open>subscribe\<close> or \<open>publish\<close> it calls throws. The \<open>catch\<close>
  of \<open>Channel.publish\<close> builds its line for \<open>console.error\<close> with
  \<open>+ node.subscription\<close>, which calls \<open>toString\<close>: when that throws, the
  \<open>TypeError\<close> leaves \<open>Channel.publish\<close> from inside the \<open>catch\<close>, with nothing
  logged, \<open>_callingNode\<close> and the mask as they are, and the remaining handlers not
  called.
\<close>

datatype call =
    Handler "val list" "cmd list"
  | PubSubPublish string "val list"
  | ChannelPublish addr "val list"
  | For addr "val list" nat
  | While addr "val list" nat "addr option"

primrec run :: "nat \<Rightarrow> env \<Rightarrow> call \<Rightarrow> state \<Rightarrow> (error option \<times> state) option" where
  "run 0 e k s = None"
| "run (Suc n) e k s =
     (case k of
        Handler args [] \<Rightarrow> Some (None, s)
      | Handler args (Emit x # cs) \<Rightarrow>
          run n e (Handler args cs) (s\<lparr>effects := effects s @ [x]\<rparr>)
      | Handler args (ThrowErr msg # cs) \<Rightarrow> Some (Some (ClientError msg), s)
      | Handler args (StopPropagation # cs) \<Rightarrow>
          (if args = [] then Some (Some TypeError, s)
           else case last args of
                  VChan c \<Rightarrow> run n e (Handler args cs) (interrupt c s)
                | _ \<Rightarrow> Some (Some TypeError, s))
      | Handler args (DoPublish name pargs # cs) \<Rightarrow>
          (case run n e (PubSubPublish name pargs) s of
             None \<Rightarrow> None
           | Some (None, s1) \<Rightarrow> run n e (Handler args cs) s1
           | Some (Some err, s1) \<Rightarrow> Some (Some err, s1))
      | Handler args (DoSubscribe name f prio ctx # cs) \<Rightarrow>
          (case PubSub_subscribe e name f prio ctx s of
             None \<Rightarrow> None
           | Some (Inl err, s1) \<Rightarrow> Some (Some err, s1)
           | Some (Inr r, s1) \<Rightarrow> run n e (Handler args cs) s1)
      | Handler args (DoUnsubscribe name f # cs) \<Rightarrow>
          run n e (Handler args cs) (snd (PubSub_unsubscribe e name f s))
      | Handler args (TellUnsubscribe name f # cs) \<Rightarrow>
          (let (didUnsubscribe, s1) = PubSub_unsubscribe e name f s
           in run n e (Handler args cs)
                (s1\<lparr>effects := effects s1 @ [if didUnsubscribe then ''true'' else ''false'']\<rparr>))
      | PubSubPublish channelName args \<Rightarrow>
          (case map_of (channels s) channelName of
             None \<Rightarrow> Some (None, s)
           | Some c \<Rightarrow> run n e (ChannelPublish c args) s)
      | ChannelPublish c args \<Rightarrow>
          (if commandMask (chans s ! c) AND PUBLISHING \<noteq> 0
           then Some (None, s\<lparr>timers := timers s @ [TPublish c args]\<rparr>)
           else run n e (For c args 0)
                  (upd_chan c (\<lambda>ch. ch\<lparr>commandMask := commandMask ch OR PUBLISHING\<rparr>) s))
      | For c args idx \<Rightarrow>
          (if idx < length (priorityMatrix (chans s ! c))
           then run n e (While c args idx (priorityMatrix (chans s ! c) ! idx)) s
           else Some (None,
                  upd_chan c (\<lambda>ch. ch\<lparr>commandMask := commandMask ch AND CLEAR_BITS\<rparr>) s))
      | While c args idx None \<Rightarrow> run n e (For c args (Suc idx)) s
      | While c args idx (Some a) \<Rightarrow>
          (if commandMask (chans s ! c) AND SIG_INT \<noteq> 0
           then Some (None,
                  upd_chan c (\<lambda>ch. ch\<lparr>commandMask := commandMask ch AND CLEAR_BITS\<rparr>) s)
           else
             (let s1 = upd_chan c (\<lambda>ch. ch\<lparr>callingNode := Some a\<rparr>) s;
                  f = fn (subscription (nodes s1 ! a));
                  s2 = s1\<lparr>calls := calls s1 @ [(f, args @ [VChan c])]\<rparr>
              in case run n e (Handler (args @ [VChan c]) (fn_body e f)) s2 of
                   None \<Rightarrow> None
                 | Some (None, s3) \<Rightarrow>
                     (let s5 = upd_chan c (\<lambda>ch. ch\<lparr>callingNode := None\<rparr>) s3
                      in run n e (While c args idx (next (nodes s5 ! a))) s5)
                 | Some (Some err, s3) \<Rightarrow>
                     (case Subscription_toString e (subscription (nodes s3 ! a)) of
                        None \<Rightarrow> Some (Some TypeError, s3)
                      | Some str \<Rightarrow>
                          (let s4 = s3\<lparr>console := console s3 @ [(err, f)]\<rparr>;
                               s5 = upd_chan c (\<lambda>ch. ch\<lparr>callingNode := None\<rparr>) s4
                           in run n e (While c args idx (next (nodes s5 ! a))) s5)))))"

definition exec_cmds ::
  "nat \<Rightarrow> env \<Rightarrow> val list \<Rightarrow> cmd list \<Rightarrow> state \<Rightarrow> (error option \<times> state) option" where
  "exec_cmds n e args cs s = run n e (Handler args cs) s"

definition PubSub_publish ::
  "nat \<Rightarrow> env \<Rightarrow> string \<Rightarrow> val list \<Rightarrow> state \<Rightarrow> (error option \<times> state) option" where
  "PubSub_publish n e channelName args s = run n e (PubSubPublish channelName args) s"

definition Channel_publish ::
  "nat \<Rightarrow> env \<Rightarrow> addr \<Rightarrow> val list \<Rightarrow> state \<Rightarrow> (error option \<times> state) option" where
  "Channel_publish n e c args s = run n e (ChannelPublish c args) s"

definition publish_for ::
  "nat \<Rightarrow> env \<Rightarrow> addr \<Rightarrow> val list \<Rightarrow> nat \<Rightarrow> state \<Rightarrow> (error option \<times> state) option" where
  "publish_for n e c args idx s = run n e (For c args idx) s"

definition publish_while ::
  "nat \<Rightarrow> env \<Rightarrow> addr \<Rightarrow> val list \<Rightarrow> nat \<Rightarrow> addr option \<Rightarrow> state \<Rightarrow>
   (error option \<times> state) option" where
  "publish_while n e c args idx node s = run n e (While c args idx node) s"

subsection \<open>The timer queue\<close>

text \<open>An error thrown in a turn started by a timer has no caller to reach.\<close>

definition run_task :: "nat \<Rightarrow> env \<Rightarrow> task \<Rightarrow> state \<Rightarrow> state option" where
  "run_task n e t s =
     (case t of
        TPublish c args \<Rightarrow> map_option snd (Channel_publish n e c args s)
      | TUnsubscribe c f \<Rightarrow> Some (snd (Channel_unsubscribe e c f s)))"

text \<open>At most \<open>turns\<close> later turns, each running the oldest timer with fuel \<open>n\<close>.\<close>

fun run_timers :: "nat \<Rightarrow> nat \<Rightarrow> env \<Rightarrow> state \<Rightarrow> state option" where
  "run_timers 0 n e s = Some s"
| "run_timers (Suc turns) n e s =
     (case timers s of
        [] \<Rightarrow> Some s
      | t # ts \<Rightarrow>
          (case run_task n e t (s\<lparr>timers := ts\<rparr>) of
             None \<Rightarrow> None
           | Some s1 \<Rightarrow> run_timers turns n e s1))"

section \<open>Auxiliary notions for the statements\<close>

text \<open>The state with both flags of channel \<open>c\<close> cleared: the channel is idle.\<close>

definition cleared :: "addr \<Rightarrow> state \<Rightarrow> state" where
  "cleared c s = upd_chan c (\<lambda>ch. ch\<lparr>commandMask := 0\<rparr>) s"

text \<open>
  A function is registered on a channel when the index \<open>_fnHashMap\<close> of the channel
  holds, under the hash of the function, a node whose subscription is that very function.
\<close>

definition registered :: "env \<Rightarrow> state \<Rightarrow> addr \<Rightarrow> fnref \<Rightarrow> bool" where
  "registered e s c f \<longleftrightarrow>
     (case map_of (fnHashMap (chans s ! c)) (hashFn e f) of
        None \<Rightarrow> False
      | Some ns \<Rightarrow> \<exists>n \<in> set ns. n < length (nodes s) \<and> fn (subscription (nodes s ! n)) = f)"

section \<open>A client program and some of its states\<close>

text \<open>
  Handler 1 throws; handler 2 publishes its own channel again; handler 3 interrupts and
  then unsubscribes itself, showing the result; handler 4 unsubscribes itself, showing
  the result; handler 5 has an effect,
  interrupts, and has another effect; handler 6 interrupts, unsubscribes itself,
  subscribes handler 7, publishes its own channel again and has an effect; handler 7 has
  an effect; handler 8 interrupts and then throws; every other handler does nothing. The
  source text of handler \<open>f\<close> is the letter f followed by one more character, and the
  functions have no name.
\<close>

definition client :: env where
  "client =
     \<lparr>fn_body = (\<lambda>f. if f = 1 then [ThrowErr ''boom'']
                      else if f = 2 then [DoPublish ''foo'' []]
                      else if f = 3 then [StopPropagation, TellUnsubscribe ''foo'' 3]
                      else if f = 4 then [TellUnsubscribe ''foo'' 4]
                      else if f = 5 then [Emit ''before'', StopPropagation, Emit ''after'']
                      else if f = 6 then [StopPropagation, DoUnsubscribe ''foo'' 6,
                                          DoSubscribe ''foo'' 7 None VUndefined,
                                          DoPublish ''foo'' [], Emit ''h-end'']
                      else if f = 7 then [Emit ''g-inline'']
                      else if f = 8 then [StopPropagation, ThrowErr ''late'']
                      else []),
      fn_source = (\<lambda>f. [102, 48 + f]),
      fn_name = (\<lambda>f. [])\<rparr>"

text \<open>The state after \<open>subscribe("foo", f)\<close> on a new \<open>PubSub\<close>, for \<open>f\<close> from 1 to 9.\<close>

definition subscribed :: "fnref \<Rightarrow> state" where
  "subscribed f =
     \<lparr>nodes = [\<lparr>prev = None, next = None,
                subscription = \<lparr>sub_id = 3210 + int f, fn = f, context = VUndefined\<rparr>,
                priority = 4\<rparr>],
      chans = [\<lparr>namespace = ''foo'', commandMask = 0,
                priorityMatrix = [None, None, None, None, Some 0],
                fnHashMap = [(3210 + int f, [0])], callingNode = None\<rparr>],
      channels = [(''foo'', 0)], timers = [], calls = [], console = [], effects = []\<rparr>"

text \<open>
  The same state at the moment \<open>Channel.publish\<close> calls the handler: the publishing flag
  is set and the node is the calling node.
\<close>

definition calling :: "fnref \<Rightarrow> state" where
  "calling f =
     upd_chan 0 (\<lambda>ch. ch\<lparr>callingNode := Some 0\<rparr>)
       (upd_chan 0 (\<lambda>ch. ch\<lparr>commandMask := commandMask ch OR PUBLISHING\<rparr>) (subscribed f))"

text \<open>
  The state after \<open>subscribe("foo", f)\<close> for the handlers 9, 10 and 11, in this order,
  on a new \<open>PubSub\<close>: one bucket of three nodes.
\<close>

definition three_subscribed :: state where
  "three_subscribed =
     \<lparr>nodes = [\<lparr>prev = None, next = Some 1,
                subscription = \<lparr>sub_id = 3219, fn = 9, context = VUndefined\<rparr>,
                priority = 4\<rparr>,
              \<lparr>prev = Some 0, next = Some 2,
                subscription = \<lparr>sub_id = 3220, fn = 10, context = VUndefined\<rparr>,
                priority = 4\<rparr>,
              \<lparr>prev = Some 1, next = None,
                subscription = \<lparr>sub_id = 3221, fn = 11, context = VUndefined\<rparr>,
                priority = 4\<rparr>],
      chans = [\<lparr>namespace = ''foo'', commandMask = 0,
                priorityMatrix = [None, None, None, None, Some 0],
                fnHashMap = [(3219, [0]), (3220, [1]), (3221, [2])], callingNode = None\<rparr>],
      channels = [(''foo'', 0)], timers = [], calls = [], console = [], effects = []\<rparr>"


section \<open>The lists behind the links\<close>

text \<open>
  \<open>chain h p x as y\<close>: following \<open>next\<close> from \<open>x\<close> visits the nodes \<open>as\<close> and arrives
  at \<open>y\<close>, and the \<open>prev\<close> of each node is the node before it (\<open>p\<close> for the first).
  A bucket is a chain from its head, with no node before and none after.
\<close>

fun chain ::
  "DLLNode list \<Rightarrow> addr option \<Rightarrow> addr option \<Rightarrow> addr list \<Rightarrow> addr option \<Rightarrow> bool" where
  "chain h p x [] y \<longleftrightarrow> x = y"
| "chain h p x (a # as) y \<longleftrightarrow>
     x = Some a \<and> a < length h \<and> prev (h ! a) = p \<and> chain h (Some a) (next (h ! a)) as y"

text \<open>The first \<open>k\<close> nodes met by following \<open>next\<close> from \<open>x\<close>.\<close>

fun walk :: "DLLNode list \<Rightarrow> nat \<Rightarrow> addr option \<Rightarrow> addr list" where
  "walk h 0 x = []"
| "walk h (Suc k) None = []"
| "walk h (Suc k) (Some a) = a # walk h k (next (h ! a))"

text \<open>The nodes of bucket \<open>i\<close> of channel \<open>c\<close>, in the order of the traversal.\<close>

definition bucket_nodes :: "state \<Rightarrow> addr \<Rightarrow> nat \<Rightarrow> addr list" where
  "bucket_nodes s c i =
     walk (nodes s) (length (nodes s)) (matrix_get (priorityMatrix (chans s ! c)) i)"

definition attached :: "state \<Rightarrow> addr \<Rightarrow> bool" where
  "attached s a \<longleftrightarrow>
     (\<exists>c < length (chans s). \<exists>i < length (priorityMatrix (chans s ! c)).
        a \<in> set (bucket_nodes s c i))"

text \<open>
  The invariant of the doubly linked lists, as the specification states it:
  \<open>node.prev.next == node\<close> and \<open>node.next.prev == node\<close> whenever the neighbour exists,
  and a node that is in no bucket has both links cleared.
\<close>

definition dll_invariant :: "state \<Rightarrow> bool" where
  "dll_invariant s \<longleftrightarrow>
     (\<forall>a < length (nodes s).
        (\<forall>p. prev (nodes s ! a) = Some p \<longrightarrow>
               p < length (nodes s) \<and> next (nodes s ! p) = Some a) \<and>
        (\<forall>n. next (nodes s ! a) = Some n \<longrightarrow>
               n < length (nodes s) \<and> prev (nodes s ! n) = Some a) \<and>
        (\<not> attached s a \<longrightarrow> prev (nodes s ! a) = None \<and> next (nodes s ! a) = None))"

text \<open>
  Well-formedness of a channel against the lists \<open>bs i\<close> of its buckets: every bucket is
  a chain of distinct nodes of that priority; the identity of each subscription is the
  hash of its function, and the index holds the node under that identity; the index
  holds, under each key, distinct nodes of the buckets whose subscription has that key as
  identity; and no two nodes of the channel hold the same function.
\<close>

definition wf_chan :: "env \<Rightarrow> DLLNode list \<Rightarrow> Channel \<Rightarrow> (nat \<Rightarrow> addr list) \<Rightarrow> bool" where
  "wf_chan e h ch bs \<longleftrightarrow>
     (\<forall>i. chain h None (matrix_get (priorityMatrix ch) i) (bs i) None
          \<and> (\<forall>a \<in> set (bs i). priority (h ! a) = i) \<and> distinct (bs i)) \<and>
     (\<forall>k ns. map_of (fnHashMap ch) k = Some ns \<longrightarrow>
          distinct ns \<and>
          (\<forall>n \<in> set ns. (\<exists>i. n \<in> set (bs i)) \<and> sub_id (subscription (h ! n)) = k)) \<and>
     (\<forall>i. \<forall>a \<in> set (bs i).
          sub_id (subscription (h ! a)) = hashFn e (fn (subscription (h ! a))) \<and>
          (\<exists>ns. map_of (fnHashMap ch) (sub_id (subscription (h ! a))) = Some ns \<and> a \<in> set ns)) \<and>
     (\<forall>i j. \<forall>a \<in> set (bs i). \<forall>b \<in> set (bs j).
          fn (subscription (h ! a)) = fn (subscription (h ! b)) \<longrightarrow> a = b)"

fun task_chan :: "task \<Rightarrow> addr" where
  "task_chan (TPublish c args) = c"
| "task_chan (TUnsubscribe c f) = c"

text \<open>
  Well-formedness of a state against the lists \<open>B c i\<close> of all buckets of all channel
  objects: each channel is well-formed, no node is in the buckets of two channels, a node
  in no bucket has no links, and the table of channels and the timers name channel
  objects that exist.
\<close>

definition wf_state :: "env \<Rightarrow> state \<Rightarrow> (addr \<Rightarrow> nat \<Rightarrow> addr list) \<Rightarrow> bool" where
  "wf_state e s B \<longleftrightarrow>
     (\<forall>c < length (chans s). wf_chan e (nodes s) (chans s ! c) (B c)) \<and>
     (\<forall>c \<ge> length (chans s). \<forall>i. B c i = []) \<and>
     (\<forall>c d i j a. a \<in> set (B c i) \<longrightarrow> a \<in> set (B d j) \<longrightarrow> c = d) \<and>
     (\<forall>a < length (nodes s). (\<forall>c i. a \<notin> set (B c i)) \<longrightarrow>
          prev (nodes s ! a) = None \<and> next (nodes s ! a) = None) \<and>
     (\<forall>c \<in> snd ` set (channels s). c < length (chans s)) \<and>
     (\<forall>t \<in> set (timers s). task_chan t < length (chans s))"

text \<open>Replacing the list of bucket \<open>p\<close> of channel \<open>c\<close>.\<close>

definition set_bucket ::
  "(addr \<Rightarrow> nat \<Rightarrow> addr list) \<Rightarrow> addr \<Rightarrow> nat \<Rightarrow> addr list \<Rightarrow> (addr \<Rightarrow> nat \<Rightarrow> addr list)" where
  "set_bucket B c p xs = B(c := (B c)(p := xs))"

text \<open>The channel object a call works on exists.\<close>

definition call_ok :: "state \<Rightarrow> call \<Rightarrow> bool" where
  "call_ok s k \<longleftrightarrow>
     (case k of
        ChannelPublish c args \<Rightarrow> c < length (chans s)
      | For c args idx \<Rightarrow> c < length (chans s)
      | While c args idx node \<Rightarrow> c < length (chans s)
      | _ \<Rightarrow> True)"

section \<open>The equations of the five functions\<close>

lemmas pub_defs = exec_cmds_def PubSub_publish_def Channel_publish_def publish_for_def publish_while_def

lemma exec_cmds_0 [simp]: "exec_cmds 0 e args cs s = None"
  by (simp add: pub_defs)

lemma exec_cmds_Nil [simp]: "exec_cmds (Suc n) e args [] s = Some (None, s)"
  by (simp add: pub_defs)

lemma exec_cmds_Emit [simp]:
  "exec_cmds (Suc n) e args (Emit x # cs) s =
     exec_cmds n e args cs (s\<lparr>effects := effects s @ [x]\<rparr>)"
  by (simp add: pub_defs)

lemma exec_cmds_ThrowErr [simp]:
  "exec_cmds (Suc n) e args (ThrowErr msg # cs) s = Some (Some (ClientError msg), s)"
  by (simp add: pub_defs)

lemma exec_cmds_StopPropagation:
  "exec_cmds (Suc n) e args (StopPropagation # cs) s =
     (if args = [] then Some (Some TypeError, s)
      else case last args of
             VChan c \<Rightarrow> exec_cmds n e args cs (interrupt c s)
           | _ \<Rightarrow> Some (Some TypeError, s))"
  by (simp add: pub_defs split: val.splits)

lemma exec_cmds_DoPublish:
  "exec_cmds (Suc n) e args (DoPublish name pargs # cs) s =
     (case PubSub_publish n e name pargs s of
        None \<Rightarrow> None
      | Some (None, s1) \<Rightarrow> exec_cmds n e args cs s1
      | Some (Some err, s1) \<Rightarrow> Some (Some err, s1))"
  by (simp add: pub_defs split: option.splits prod.splits)

lemma exec_cmds_DoSubscribe:
  "exec_cmds (Suc n) e args (DoSubscribe name f prio ctx # cs) s =
     (case PubSub_subscribe e name f prio ctx s of
        None \<Rightarrow> None
      | Some (Inl err, s1) \<Rightarrow> Some (Some err, s1)
      | Some (Inr r, s1) \<Rightarrow> exec_cmds n e args cs s1)"
  by (simp add: pub_defs split: option.splits sum.splits prod.splits)

lemma exec_cmds_DoUnsubscribe:
  "exec_cmds (Suc n) e args (DoUnsubscribe name f # cs) s =
     exec_cmds n e args cs (snd (PubSub_unsubscribe e name f s))"
  by (simp add: pub_defs)

lemma exec_cmds_TellUnsubscribe:
  "exec_cmds (Suc n) e args (TellUnsubscribe name f # cs) s =
     (let (didUnsubscribe, s1) = PubSub_unsubscribe e name f s
      in exec_cmds n e args cs
           (s1\<lparr>effects := effects s1 @ [if didUnsubscribe then ''true'' else ''false'']\<rparr>))"
  by (simp add: pub_defs split: prod.splits)

lemma PubSub_publish_0 [simp]: "PubSub_publish 0 e channelName args s = None"
  by (simp add: pub_defs)

lemma PubSub_publish_Suc:
  "PubSub_publish (Suc n) e channelName args s =
     (case map_of (channels s) channelName of
        None \<Rightarrow> Some (None, s)
      | Some c \<Rightarrow> Channel_publish n e c args s)"
  by (simp add: pub_defs split: option.splits)

lemma Channel_publish_0 [simp]: "Channel_publish 0 e c args s = None"
  by (simp add: pub_defs)

lemma Channel_publish_Suc:
  "Channel_publish (Suc n) e c args s =
     (if commandMask (chans s ! c) AND PUBLISHING \<noteq> 0
      then Some (None, s\<lparr>timers := timers s @ [TPublish c args]\<rparr>)
      else publish_for n e c args 0
             (upd_chan c (\<lambda>ch. ch\<lparr>commandMask := commandMask ch OR PUBLISHING\<rparr>) s))"
  by (simp add: pub_defs)

lemma publish_for_0 [simp]: "publish_for 0 e c args idx s = None"
  by (simp add: pub_defs)

lemma publish_for_Suc:
  "publish_for (Suc n) e c args idx s =
     (if idx < length (priorityMatrix (chans s ! c))
      then publish_while n e c args idx (priorityMatrix (chans s ! c) ! idx) s
      else Some (None,
             upd_chan c (\<lambda>ch. ch\<lparr>commandMask := commandMask ch AND CLEAR_BITS\<rparr>) s))"
  by (simp add: pub_defs)

lemma publish_while_0 [simp]: "publish_while 0 e c args idx node s = None"
  by (simp add: pub_defs)

lemma publish_while_None [simp]:
  "publish_while (Suc n) e c args idx None s = publish_for n e c args (Suc idx) s"
  by (simp add: pub_defs)

lemma publish_while_Some:
  "publish_while (Suc n) e c args idx (Some a) s =
     (if commandMask (chans s ! c) AND SIG_INT \<noteq> 0
      then Some (None,
             upd_chan c (\<lambda>ch. ch\<lparr>commandMask := commandMask ch AND CLEAR_BITS\<rparr>) s)
      else
        (let s1 = upd_chan c (\<lambda>ch. ch\<lparr>callingNode := Some a\<rparr>) s;
             f = fn (subscription (nodes s1 ! a));
             s2 = s1\<lparr>calls := calls s1 @ [(f, args @ [VChan c])]\<rparr>
         in case exec_cmds n e (args @ [VChan c]) (fn_body e f) s2 of
              None \<Rightarrow> None
            | Some (None, s3) \<Rightarrow>
                (let s5 = upd_chan c (\<lambda>ch. ch\<lparr>callingNode := None\<rparr>) s3
                 in publish_while n e c args idx (next (nodes s5 ! a)) s5)
            | Some (Some err, s3) \<Rightarrow>
                (case Subscription_toString e (subscription (nodes s3 ! a)) of
                   None \<Rightarrow> Some (Some TypeError, s3)
                 | Some str \<Rightarrow>
                     (let s4 = s3\<lparr>console := console s3 @ [(err, f)]\<rparr>;
                          s5 = upd_chan c (\<lambda>ch. ch\<lparr>callingNode := None\<rparr>) s4
                      in publish_while n e c args idx (next (nodes s5 ! a)) s5))))"
  by (simp add: pub_defs Let_def split: option.splits prod.splits)


text \<open>The same equations for fuel written as a numeral, for evaluation.\<close>

lemma exec_cmds_Nil_num:
  "exec_cmds (numeral k) e args [] s = Some (None, s)"
  by (simp add: numeral_eq_Suc exec_cmds_Nil)

lemma exec_cmds_Emit_num:
  "exec_cmds (numeral k) e args (Emit x # cs) s =
     exec_cmds (pred_numeral k) e args cs (s\<lparr>effects := effects s @ [x]\<rparr>)"
  by (simp add: numeral_eq_Suc exec_cmds_Emit)

lemma exec_cmds_ThrowErr_num:
  "exec_cmds (numeral k) e args (ThrowErr msg # cs) s = Some (Some (ClientError msg), s)"
  by (simp add: numeral_eq_Suc exec_cmds_ThrowErr)

lemma exec_cmds_StopPropagation_num:
  "exec_cmds (numeral k) e args (StopPropagation # cs) s =
     (if args = [] then Some (Some TypeError, s)
      else case last args of
             VChan c \<Rightarrow> exec_cmds (pred_numeral k) e args cs (interrupt c s)
           | _ \<Rightarrow> Some (Some TypeError, s))"
  by (simp add: numeral_eq_Suc exec_cmds_StopPropagation)

lemma exec_cmds_DoPublish_num:
  "exec_cmds (numeral k) e args (DoPublish name pargs # cs) s =
     (case PubSub_publish (pred_numeral k) e name pargs s of
        None \<Rightarrow> None
      | Some (None, s1) \<Rightarrow> exec_cmds (pred_numeral k) e args cs s1
      | Some (Some err, s1) \<Rightarrow> Some (Some err, s1))"
  by (simp add: numeral_eq_Suc exec_cmds_DoPublish)

lemma exec_cmds_DoSubscribe_num:
  "exec_cmds (numeral k) e args (DoSubscribe name f prio ctx # cs) s =
     (case PubSub_subscribe e name f prio ctx s of
        None \<Rightarrow> None
      | Some (Inl err, s1) \<Rightarrow> Some (Some err, s1)
      | Some (Inr r, s1) \<Rightarrow> exec_cmds (pred_numeral k) e args cs s1)"
  by (simp add: numeral_eq_Suc exec_cmds_DoSubscribe)

lemma exec_cmds_DoUnsubscribe_num:
  "exec_cmds (numeral k) e args (DoUnsubscribe name f # cs) s =
     exec_cmds (pred_numeral k) e args cs (snd (PubSub_unsubscribe e name f s))"
  by (simp add: numeral_eq_Suc exec_cmds_DoUnsubscribe)

lemma exec_cmds_TellUnsubscribe_num:
  "exec_cmds (numeral k) e args (TellUnsubscribe name f # cs) s =
     (let (didUnsubscribe, s1) = PubSub_unsubscribe e name f s
      in exec_cmds (pred_numeral k) e args cs
           (s1\<lparr>effects := effects s1 @ [if didUnsubscribe then ''true'' else ''false'']\<rparr>))"
  by (simp add: numeral_eq_Suc exec_cmds_TellUnsubscribe)

lemma PubSub_publish_num:
  "PubSub_publish (numeral k) e channelName args s =
     (case map_of (channels s) channelName of
        None \<Rightarrow> Some (None, s)
      | Some c \<Rightarrow> Channel_publish (pred_numeral k) e c args s)"
  by (simp add: numeral_eq_Suc PubSub_publish_Suc)

lemma Channel_publish_num:
  "Channel_publish (numeral k) e c args s =
     (if commandMask (chans s ! c) AND PUBLISHING \<noteq> 0
      then Some (None, s\<lparr>timers := timers s @ [TPublish c args]\<rparr>)
      else publish_for (pred_numeral k) e c args 0
             (upd_chan c (\<lambda>ch. ch\<lparr>commandMask := commandMask ch OR PUBLISHING\<rparr>) s))"
  by (simp add: numeral_eq_Suc Channel_publish_Suc)

lemma publish_for_num:
  "publish_for (numeral k) e c args idx s =
     (if idx < length (priorityMatrix (chans s ! c))
      then publish_while (pred_numeral k) e c args idx (priorityMatrix (chans s ! c) ! idx) s
      else Some (None,
             upd_chan c (\<lambda>ch. ch\<lparr>commandMask := commandMask ch AND CLEAR_BITS\<rparr>) s))"
  by (simp add: numeral_eq_Suc publish_for_Suc)

lemma publish_while_None_num:
  "publish_while (numeral k) e c args idx None s = publish_for (pred_numeral k) e c args (Suc idx) s"
  by (simp add: numeral_eq_Suc publish_while_None)

lemma publish_while_Some_num:
  "publish_while (numeral k) e c args idx (Some a) s =
     (if commandMask (chans s ! c) AND SIG_INT \<noteq> 0
      then Some (None,
             upd_chan c (\<lambda>ch. ch\<lparr>commandMask := commandMask ch AND CLEAR_BITS\<rparr>) s)
      else
        (let s1 = upd_chan c (\<lambda>ch. ch\<lparr>callingNode := Some a\<rparr>) s;
             f = fn (subscription (nodes s1 ! a));
             s2 = s1\<lparr>calls := calls s1 @ [(f, args @ [VChan c])]\<rparr>
         in case exec_cmds (pred_numeral k) e (args @ [VChan c]) (fn_body e f) s2 of
              None \<Rightarrow> None
            | Some (None, s3) \<Rightarrow>
                (let s5 = upd_chan c (\<lambda>ch. ch\<lparr>callingNode := None\<rparr>) s3
                 in publish_while (pred_numeral k) e c args idx (next (nodes s5 ! a)) s5)
            | Some (Some err, s3) \<Rightarrow>
                (case Subscription_toString e (subscription (nodes s3 ! a)) of
                   None \<Rightarrow> Some (Some TypeError, s3)
                 | Some str \<Rightarrow>
                     (let s4 = s3\<lparr>console := console s3 @ [(err, f)]\<rparr>;
                          s5 = upd_chan c (\<lambda>ch. ch\<lparr>callingNode := None\<rparr>) s4
                      in publish_while (pred_numeral k) e c args idx (next (nodes s5 ! a)) s5))))"
  by (simp add: numeral_eq_Suc publish_while_Some)

lemmas fuel_num = exec_cmds_Nil_num exec_cmds_Emit_num exec_cmds_ThrowErr_num exec_cmds_StopPropagation_num exec_cmds_DoPublish_num exec_cmds_DoSubscribe_num exec_cmds_DoUnsubscribe_num exec_cmds_TellUnsubscribe_num PubSub_publish_num Channel_publish_num publish_for_num publish_while_None_num publish_while_Some_num

lemma replicate_num: "replicate (numeral k) x = x # replicate (pred_numeral k) x"
  by (simp add: numeral_eq_Suc)

lemmas model_defs =
  init_state_def PubSub_subscribe_def PubSub_unsubscribe_def Channel_subscribe_def
  Channel_unsubscribe_def unlink_def new_Channel_def hashFn_def hashStr_def is_space_def
  link_node_def matrix_get_def matrix_set_def upd_chan_def upd_node_def hasSubscribers_def
  interrupt_def PUBLISHING_def SIG_INT_def CLEAR_BITS_def Let_def last_node.simps
  Subscription_toString_def
  run_task_def replicate_num fuel_num

section \<open>Basic facts\<close>

lemma or2_and2: "((m::32 word) OR 2) AND 2 = 2"
  by (simp add: bit.conj_disj_distrib2 word_bw_assocs word_bw_comms word_ao_absorbs)

lemma chans_upd_chan [simp]:
  "chans (upd_chan c f s) = (chans s)[c := f (chans s ! c)]"
  by (simp add: upd_chan_def)
lemma upd_chan_other [simp]:
  "nodes (upd_chan c f s) = nodes s" "channels (upd_chan c f s) = channels s"
  "timers (upd_chan c f s) = timers s" "calls (upd_chan c f s) = calls s"
  "console (upd_chan c f s) = console s" "effects (upd_chan c f s) = effects s"
  by (simp_all add: upd_chan_def)
lemma upd_chan_upd_chan [simp]:
  "upd_chan c f (upd_chan c g s) = upd_chan c (f \<circ> g) s"
  by (cases "c < length (chans s)") (simp_all add: upd_chan_def list_update_beyond)

lemma nodes_upd_node [simp]:
  "nodes (upd_node a f s) = (nodes s)[a := f (nodes s ! a)]"
  by (simp add: upd_node_def)
lemma upd_node_other [simp]:
  "chans (upd_node a f s) = chans s" "channels (upd_node a f s) = channels s"
  "timers (upd_node a f s) = timers s" "calls (upd_node a f s) = calls s"
  "console (upd_node a f s) = console s" "effects (upd_node a f s) = effects s"
  by (simp_all add: upd_node_def)

lemma clear_bits_eq:
  "upd_chan c (\<lambda>ch. ch\<lparr>commandMask := commandMask ch AND CLEAR_BITS\<rparr>) s = cleared c s"
  by (simp add: cleared_def CLEAR_BITS_def)

text \<open>Once the interrupted flag is set, the rest of the traversal calls nothing.\<close>

lemma interrupted_rest_partial:
  assumes "commandMask (chans s ! c) AND SIG_INT \<noteq> 0"
  shows "(publish_for n e c args idx s = Some r \<longrightarrow> r = (None, cleared c s)) \<and>
         (publish_while n e c args idx node s = Some r \<longrightarrow> r = (None, cleared c s))"
proof (induction n arbitrary: idx node)
  case 0
  show ?case by simp
next
  case (Suc n)
  have f: "publish_for (Suc n) e c args idx s = Some r \<longrightarrow> r = (None, cleared c s)"
    using Suc[of idx "priorityMatrix (chans s ! c) ! idx"]
    by (auto simp: publish_for_Suc clear_bits_eq)
  have w: "publish_while (Suc n) e c args idx node s = Some r \<longrightarrow> r = (None, cleared c s)"
  proof (cases node)
    case None
    then show ?thesis using Suc[of "Suc idx" None] by simp
  next
    case (Some a)
    then show ?thesis using assms by (simp add: publish_while_Some clear_bits_eq)
  qed
  from f w show ?case by blast
qed


section \<open>The client program\<close>

lemma subscribed_reached:
  "PubSub_subscribe client ''foo'' 1 None VUndefined init_state = Some (Inr (0, 1), subscribed 1)"
  "PubSub_subscribe client ''foo'' 2 None VUndefined init_state = Some (Inr (0, 2), subscribed 2)"
  "PubSub_subscribe client ''foo'' 3 None VUndefined init_state = Some (Inr (0, 3), subscribed 3)"
  "PubSub_subscribe client ''foo'' 4 None VUndefined init_state = Some (Inr (0, 4), subscribed 4)"
  "PubSub_subscribe client ''foo'' 5 None VUndefined init_state = Some (Inr (0, 5), subscribed 5)"
  by (simp_all add: model_defs client_def subscribed_def)

lemma republish_scenario:
  "PubSub_publish 20 client ''foo'' [] (subscribed 2) =
     Some (None, (subscribed 2)\<lparr>timers := [TPublish 0 []], calls := [(2, [VChan 0])]\<rparr>)"
  "run_timers 1 20 client ((subscribed 2)\<lparr>timers := [TPublish 0 []], calls := [(2, [VChan 0])]\<rparr>) =
     Some ((subscribed 2)\<lparr>timers := [TPublish 0 []], calls := [(2, [VChan 0]), (2, [VChan 0])]\<rparr>)"
  by (simp_all add: model_defs client_def subscribed_def)

section \<open>Duplicate subscriptions\<close>

lemma registered_unfold:
  "registered e s c f \<Longrightarrow>
     \<exists>ns. map_of (fnHashMap (chans s ! c)) (hashFn e f) = Some ns \<and>
          (\<exists>n \<in> set ns. n < length (nodes s) \<and> fn (subscription (nodes s ! n)) = f)"
  by (auto simp: registered_def split: option.splits)

lemma Channel_subscribe_duplicate:
  assumes "registered e s c f"
  shows "\<exists>err. Channel_subscribe e c f p ctx s =
           Some (Inl err,
                 s\<lparr>nodes := nodes s @
                    [\<lparr>prev = None, next = None,
                      subscription = \<lparr>sub_id = hashFn e f, fn = f, context = ctx\<rparr>,
                      priority = p\<rparr>]\<rparr>)"
proof -
  from registered_unfold[OF assms] obtain ns n where
    ns: "map_of (fnHashMap (chans s ! c)) (hashFn e f) = Some ns" and
    n: "n \<in> set ns" "n < length (nodes s)" "fn (subscription (nodes s ! n)) = f"
    by blast
  have "find (\<lambda>node. fn (subscription ((nodes s @ [x]) ! node)) = f) ns \<noteq> None" for x
    using n by (auto simp: find_None_iff nth_append)
  then show ?thesis using ns
    by (auto simp add: Channel_subscribe_def Let_def split: option.splits)
qed

section \<open>Chains\<close>

lemma chain_bound: "chain h p x as y \<Longrightarrow> a \<in> set as \<Longrightarrow> a < length h"
  by (induction as arbitrary: p x) auto

lemma chain_None [simp]: "chain h p None as None \<longleftrightarrow> as = []"
  by (cases as) auto

lemma chain_unique: "chain h p x as None \<Longrightarrow> chain h p x bs None \<Longrightarrow> as = bs"
proof (induction as arbitrary: p x bs)
  case Nil
  then show ?case by (cases bs) auto
next
  case (Cons a as)
  then show ?case by (cases bs) auto
qed

lemma chain_append:
  "chain h p x (as @ bs) z \<longleftrightarrow>
     (\<exists>y. chain h p x as y \<and> chain h (if as = [] then p else Some (last as)) y bs z)"
  by (induction as arbitrary: p x) auto

lemma chain_frame:
  assumes "chain h p x as y" "length h \<le> length h'"
      and "\<And>a. a \<in> set as \<Longrightarrow> prev (h' ! a) = prev (h ! a) \<and> next (h' ! a) = next (h ! a)"
  shows "chain h' p x as y"
  using assms by (induction as arbitrary: p x) auto

lemma chain_snoc_heap: "chain h p x as y \<Longrightarrow> chain (h @ [n]) p x as y"
  by (rule chain_frame) (auto simp: nth_append dest: chain_bound)

lemma chain_upd_other: "chain h p x as y \<Longrightarrow> a \<notin> set as \<Longrightarrow> chain (h[a := v]) p x as y"
  by (induction as arbitrary: p x) (auto simp: nth_list_update)

lemma chain_set_next_last:
  assumes "chain h p x as y" "as \<noteq> []" "distinct as"
  shows "chain (h[last as := (h ! last as)\<lparr>next := y'\<rparr>]) p x as y'"
  using assms
proof (induction as arbitrary: p x)
  case Nil
  then show ?case by simp
next
  case (Cons a as)
  show ?case
  proof (cases "as = []")
    case True
    then show ?thesis using Cons.prems by auto
  next
    case False
    then have "a \<noteq> last as" using Cons.prems by auto
    then show ?thesis using Cons False by (auto simp: nth_list_update)
  qed
qed

lemma chain_set_prev_hd:
  assumes "chain h p x as y" "as \<noteq> []" "distinct as"
  shows "chain (h[hd as := (h ! hd as)\<lparr>prev := p'\<rparr>]) p' x as y"
proof -
  obtain a bs where as: "as = a # bs" using assms(2) by (cases as) auto
  have "chain (h[a := (h ! a)\<lparr>prev := p'\<rparr>]) (Some a) (next (h ! a)) bs y"
    using assms as by (intro chain_upd_other) auto
  then show ?thesis using assms as by auto
qed

lemma chain_last_next:
  "chain h p x as y \<Longrightarrow> as \<noteq> [] \<Longrightarrow> next (h ! last as) = y"
  by (induction as arbitrary: p x) auto

lemma chain_hd: "chain h p x as y \<Longrightarrow> as \<noteq> [] \<Longrightarrow> x = Some (hd as) \<and> prev (h ! hd as) = p"
  by (cases as) auto

lemma chain_mid:
  assumes "chain h p x (xs @ a # ys) y"
  shows "a < length h"
    and "prev (h ! a) = (if xs = [] then p else Some (last xs))"
    and "next (h ! a) = (if ys = [] then y else Some (hd ys))"
    and "xs \<noteq> [] \<Longrightarrow> next (h ! last xs) = Some a"
    and "ys \<noteq> [] \<Longrightarrow> prev (h ! hd ys) = Some a"
proof -
  from assms obtain z where z: "chain h p x xs z"
    "chain h (if xs = [] then p else Some (last xs)) z (a # ys) y"
    by (auto simp: chain_append)
  from z(2) show "a < length h" "prev (h ! a) = (if xs = [] then p else Some (last xs))" by auto
  from z(2) have t: "chain h (Some a) (next (h ! a)) ys y" and za: "z = Some a" by auto
  from t show "next (h ! a) = (if ys = [] then y else Some (hd ys))"
    by (cases ys) auto
  show "xs \<noteq> [] \<Longrightarrow> next (h ! last xs) = Some a"
    using chain_last_next[OF z(1)] za by simp
  show "ys \<noteq> [] \<Longrightarrow> prev (h ! hd ys) = Some a"
    using chain_hd[OF t] by simp
qed

lemma last_node_chain:
  "chain h p (Some a) as None \<Longrightarrow> last_node h a = Some (last as)"
proof (induction as arbitrary: p a)
  case Nil
  then show ?case by simp
next
  case (Cons b bs)
  show ?case
  proof (cases bs)
    case Nil
    then show ?thesis using Cons.prems by (subst last_node.simps) auto
  next
    case (Cons c cs)
    then have "chain h (Some b) (Some c) bs None" "next (h ! a) = Some c" "a = b"
      using Cons.prems by auto
    then show ?thesis using Cons.IH[of "Some b" c] Cons
      by (subst last_node.simps) auto
  qed
qed

lemma walk_chain:
  "chain h p x as None \<Longrightarrow> length as \<le> k \<Longrightarrow> walk h k x = as"
proof (induction h k x arbitrary: p as rule: walk.induct)
  case (1 h x)
  then show ?case by simp
next
  case (2 h k)
  then show ?case by simp
next
  case (3 h k a)
  then show ?case by (cases as) auto
qed

lemma distinct_bounded_length:
  assumes "distinct as" "\<forall>a \<in> set as. a < (n::nat)"
  shows "length as \<le> n"
proof -
  have "card (set as) \<le> card {..<n}"
    using assms(2) by (intro card_mono) auto
  then show ?thesis using assms(1) by (simp add: distinct_card)
qed

section \<open>Well-formedness is preserved\<close>

lemma matrix_get_set [simp]:
  "matrix_get (matrix_set m p v) i = (if i = p then v else matrix_get m i)"
  by (auto simp: matrix_get_def matrix_set_def nth_append nth_Cons')

lemma wf_chanI:
  assumes "\<And>i. chain h None (matrix_get (priorityMatrix ch) i) (bs i) None"
      and "\<And>i a. a \<in> set (bs i) \<Longrightarrow> priority (h ! a) = i"
      and "\<And>i. distinct (bs i)"
      and "\<And>k ns. map_of (fnHashMap ch) k = Some ns \<Longrightarrow> distinct ns"
      and "\<And>k ns n. map_of (fnHashMap ch) k = Some ns \<Longrightarrow> n \<in> set ns \<Longrightarrow> \<exists>i. n \<in> set (bs i)"
      and "\<And>k ns n. map_of (fnHashMap ch) k = Some ns \<Longrightarrow> n \<in> set ns \<Longrightarrow>
             sub_id (subscription (h ! n)) = k"
      and "\<And>i a. a \<in> set (bs i) \<Longrightarrow>
             sub_id (subscription (h ! a)) = hashFn e (fn (subscription (h ! a)))"
      and "\<And>i a. a \<in> set (bs i) \<Longrightarrow>
             \<exists>ns. map_of (fnHashMap ch) (sub_id (subscription (h ! a))) = Some ns \<and> a \<in> set ns"
      and "\<And>i j a b. a \<in> set (bs i) \<Longrightarrow> b \<in> set (bs j) \<Longrightarrow>
             fn (subscription (h ! a)) = fn (subscription (h ! b)) \<Longrightarrow> a = b"
  shows "wf_chan e h ch bs"
  unfolding wf_chan_def using assms by (intro conjI allI ballI impI) blast+

lemma wf_chanD:
  assumes "wf_chan e h ch bs"
  shows "chain h None (matrix_get (priorityMatrix ch) i) (bs i) None"
    and "a \<in> set (bs i) \<Longrightarrow> priority (h ! a) = i"
    and "distinct (bs i)"
    and "map_of (fnHashMap ch) k = Some ns \<Longrightarrow> distinct ns"
    and "map_of (fnHashMap ch) k = Some ns \<Longrightarrow> n \<in> set ns \<Longrightarrow> \<exists>i. n \<in> set (bs i)"
    and "map_of (fnHashMap ch) k = Some ns \<Longrightarrow> n \<in> set ns \<Longrightarrow>
           sub_id (subscription (h ! n)) = k"
  using assms unfolding wf_chan_def by blast+

lemma wf_chanD_idx:
  assumes "wf_chan e h ch bs"
  shows "a \<in> set (bs i) \<Longrightarrow>
           sub_id (subscription (h ! a)) = hashFn e (fn (subscription (h ! a)))"
    and "a \<in> set (bs i) \<Longrightarrow>
           \<exists>ns. map_of (fnHashMap ch) (sub_id (subscription (h ! a))) = Some ns \<and> a \<in> set ns"
    and "a \<in> set (bs i) \<Longrightarrow> b \<in> set (bs j) \<Longrightarrow>
           fn (subscription (h ! a)) = fn (subscription (h ! b)) \<Longrightarrow> a = b"
  using assms unfolding wf_chan_def by blast+

lemma wf_stateI:
  assumes "\<And>c. c < length (chans s) \<Longrightarrow> wf_chan e (nodes s) (chans s ! c) (B c)"
      and "\<And>c i. length (chans s) \<le> c \<Longrightarrow> B c i = []"
      and "\<And>c d i j a. a \<in> set (B c i) \<Longrightarrow> a \<in> set (B d j) \<Longrightarrow> c = d"
      and "\<And>a. a < length (nodes s) \<Longrightarrow> (\<forall>c i. a \<notin> set (B c i)) \<Longrightarrow>
             prev (nodes s ! a) = None \<and> next (nodes s ! a) = None"
      and "\<And>c. c \<in> snd ` set (channels s) \<Longrightarrow> c < length (chans s)"
      and "\<And>t. t \<in> set (timers s) \<Longrightarrow> task_chan t < length (chans s)"
  shows "wf_state e s B"
  unfolding wf_state_def using assms by blast

lemma wf_stateD1:
  "wf_state e s B \<Longrightarrow> c < length (chans s) \<Longrightarrow> wf_chan e (nodes s) (chans s ! c) (B c)"
  unfolding wf_state_def by (elim conjE) (erule allE[of _ c], simp)

lemma wf_stateD2: "wf_state e s B \<Longrightarrow> length (chans s) \<le> c \<Longrightarrow> B c i = []"
  unfolding wf_state_def by (elim conjE) (erule allE[of "\<lambda>c. length (chans s) \<le> c \<longrightarrow> (\<forall>i. B c i = [])" c], simp)

lemma wf_stateD3:
  "wf_state e s B \<Longrightarrow> a \<in> set (B c i) \<Longrightarrow> a \<in> set (B d j) \<Longrightarrow> c = d"
  unfolding wf_state_def by (elim conjE) fast

lemma wf_stateD4:
  "wf_state e s B \<Longrightarrow> a < length (nodes s) \<Longrightarrow> (\<forall>c i. a \<notin> set (B c i)) \<Longrightarrow>
     prev (nodes s ! a) = None \<and> next (nodes s ! a) = None"
  unfolding wf_state_def by (elim conjE) (erule allE[of "\<lambda>a. a < length (nodes s) \<longrightarrow> _ a" a], simp)

lemma wf_stateD5:
  "wf_state e s B \<Longrightarrow> c \<in> snd ` set (channels s) \<Longrightarrow> c < length (chans s)"
  unfolding wf_state_def by (elim conjE) (erule bspec)

lemma wf_stateD6:
  "wf_state e s B \<Longrightarrow> t \<in> set (timers s) \<Longrightarrow> task_chan t < length (chans s)"
  unfolding wf_state_def by (elim conjE) (erule bspec)

lemmas wf_stateD = wf_stateD1 wf_stateD2 wf_stateD3 wf_stateD4 wf_stateD5 wf_stateD6

lemma wf_chan_frame:
  assumes "wf_chan e h ch bs" "length h \<le> length h'"
      and "\<And>i a. a \<in> set (bs i) \<Longrightarrow> h' ! a = h ! a"
  shows "wf_chan e h' ch bs"
proof (rule wf_chanI)
  fix i
  show "chain h' None (matrix_get (priorityMatrix ch) i) (bs i) None"
    using wf_chanD(1)[OF assms(1), of i] assms(2,3)
    by (intro chain_frame[of h _ _ _ _ h']) auto
  show "distinct (bs i)" by (rule wf_chanD(3)[OF assms(1)])
next
  fix i a assume "a \<in> set (bs i)"
  then show "priority (h' ! a) = i" using wf_chanD(2)[OF assms(1)] assms(3) by simp
next
  fix k ns assume m: "map_of (fnHashMap ch) k = Some ns"
  show "distinct ns" by (rule wf_chanD(4)[OF assms(1) m])
  fix n assume n: "n \<in> set ns"
  show ex: "\<exists>i. n \<in> set (bs i)" by (rule wf_chanD(5)[OF assms(1) m n])
  then obtain i where "n \<in> set (bs i)" ..
  then have "h' ! n = h ! n" by (rule assms(3))
  then show "sub_id (subscription (h' ! n)) = k" using wf_chanD(6)[OF assms(1) m n] by simp
next
  fix i a assume a: "a \<in> set (bs i)"
  then have eq: "h' ! a = h ! a" by (rule assms(3))
  show "sub_id (subscription (h' ! a)) = hashFn e (fn (subscription (h' ! a)))"
    using wf_chanD_idx(1)[OF assms(1) a] eq by simp
  show "\<exists>ns. map_of (fnHashMap ch) (sub_id (subscription (h' ! a))) = Some ns \<and> a \<in> set ns"
    using wf_chanD_idx(2)[OF assms(1) a] eq by simp
next
  fix i j a b
  assume ab: "a \<in> set (bs i)" "b \<in> set (bs j)"
    "fn (subscription (h' ! a)) = fn (subscription (h' ! b))"
  then show "a = b"
    using wf_chanD_idx(3)[OF assms(1) ab(1,2)] assms(3)[OF ab(1)] assms(3)[OF ab(2)] by simp
qed

lemma wf_chan_commandMask [simp]:
  "wf_chan e h (ch\<lparr>commandMask := m\<rparr>) bs = wf_chan e h ch bs"
  unfolding wf_chan_def by simp

lemma wf_chan_callingNode [simp]:
  "wf_chan e h (ch\<lparr>callingNode := cn\<rparr>) bs = wf_chan e h ch bs"
  unfolding wf_chan_def by simp

lemma wf_chan_bound: "wf_chan e h ch bs \<Longrightarrow> a \<in> set (bs i) \<Longrightarrow> a < length h"
  using wf_chanD(1) chain_bound by blast

lemma wf_state_bound:
  assumes "wf_state e s B" "a \<in> set (B c i)"
  shows "a < length (nodes s)" "c < length (chans s)"
proof -
  show c: "c < length (chans s)"
  proof (rule ccontr)
    assume "\<not> c < length (chans s)"
    then have "B c i = []" using wf_stateD(2)[OF assms(1)] by simp
    then show False using assms(2) by simp
  qed
  then show "a < length (nodes s)"
    using wf_stateD(1)[OF assms(1) c] assms(2) wf_chan_bound by blast
qed

lemma wf_state_same_bucket:
  assumes "wf_state e s B" "a \<in> set (B c i)" "a \<in> set (B d j)"
  shows "c = d \<and> i = j"
proof -
  have cd: "c = d" using wf_stateD(3)[OF assms] .
  have "c < length (chans s)" using assms wf_state_bound by blast
  then have "wf_chan e (nodes s) (chans s ! c) (B c)" using wf_stateD(1)[OF assms(1)] by simp
  then show ?thesis using assms(2,3) cd wf_chanD(2) by blast
qed

text \<open>Allocating a node without links.\<close>

lemma wf_state_alloc:
  assumes "wf_state e s B" "prev n = None" "next n = None"
  shows "wf_state e (s\<lparr>nodes := nodes s @ [n]\<rparr>) B"
proof (rule wf_stateI)
  have fr: "(nodes s @ [n]) ! a = nodes s ! a" if "a \<in> set (B c i)" for a c i
    using wf_state_bound[OF assms(1) that] by (simp add: nth_append)
  fix c assume "c < length (chans (s\<lparr>nodes := nodes s @ [n]\<rparr>))"
  then have "wf_chan e (nodes s) (chans s ! c) (B c)"
    using wf_stateD(1)[OF assms(1), of c] by simp
  then have "wf_chan e (nodes s @ [n]) (chans s ! c) (B c)"
  proof (rule wf_chan_frame)
    show "length (nodes s) \<le> length (nodes s @ [n])" by simp
    fix i a assume "a \<in> set (B c i)"
    then show "(nodes s @ [n]) ! a = nodes s ! a" by (rule fr)
  qed
  then show "wf_chan e (nodes (s\<lparr>nodes := nodes s @ [n]\<rparr>)) (chans (s\<lparr>nodes := nodes s @ [n]\<rparr>) ! c) (B c)"
    by simp
next
  fix a assume "a < length (nodes (s\<lparr>nodes := nodes s @ [n]\<rparr>))" "\<forall>c i. a \<notin> set (B c i)"
  then show "prev (nodes (s\<lparr>nodes := nodes s @ [n]\<rparr>) ! a) = None \<and>
             next (nodes (s\<lparr>nodes := nodes s @ [n]\<rparr>) ! a) = None"
    using assms(2,3) wf_stateD(4)[OF assms(1), of a]
    by (cases "a < length (nodes s)") (auto simp: nth_append)
next
  fix c i assume "length (chans (s\<lparr>nodes := nodes s @ [n]\<rparr>)) \<le> c"
  then show "B c i = []" using wf_stateD(2)[OF assms(1)] by simp
next
  fix c d i j a assume "a \<in> set (B c i)" "a \<in> set (B d j)"
  then show "c = d" by (rule wf_stateD(3)[OF assms(1)])
next
  fix c assume "c \<in> snd ` set (channels (s\<lparr>nodes := nodes s @ [n]\<rparr>))"
  then show "c < length (chans (s\<lparr>nodes := nodes s @ [n]\<rparr>))"
    using wf_stateD(5)[OF assms(1)] by simp
next
  fix t assume "t \<in> set (timers (s\<lparr>nodes := nodes s @ [n]\<rparr>))"
  then show "task_chan t < length (chans (s\<lparr>nodes := nodes s @ [n]\<rparr>))"
    using wf_stateD(6)[OF assms(1)] by simp
qed

lemma set_bucket_apply [simp]:
  "set_bucket B c p xs d j = (if d = c \<and> j = p then xs else B d j)"
  by (simp add: set_bucket_def)

lemma map_of_update:
  "map_of (AList.update k v al) k' = (if k' = k then Some v else map_of al k')"
  by (simp add: update_conv')

lemma map_of_delete:
  "map_of (AList.delete k al) k' = (if k' = k then None else map_of al k')"
  by (simp add: delete_conv')

lemma set_bucket_same: "set_bucket B c p xs c = (B c)(p := xs)"
  by (simp add: set_bucket_def)

text \<open>The index after a node with a new function has been added.\<close>

lemma idx_add:
  assumes wc: "wf_chan e h ch bs" and det: "\<forall>i. a \<notin> set (bs i)"
      and ke: "sub_id (subscription (h ! a)) = hashFn e (fn (subscription (h ! a)))"
      and fresh: "\<And>i b. b \<in> set (bs i) \<Longrightarrow>
                    fn (subscription (h ! b)) \<noteq> fn (subscription (h ! a))"
      and fa: "fnArray = (case map_of (fnHashMap ch) (sub_id (subscription (h ! a))) of
                           None \<Rightarrow> [] | Some ns \<Rightarrow> ns)"
      and x: "x \<in> set ((bs(p := bs p @ [a])) i)"
  shows "sub_id (subscription (h ! x)) = hashFn e (fn (subscription (h ! x)))"
    and "\<exists>ns. map_of (AList.update (sub_id (subscription (h ! a))) (fnArray @ [a]) (fnHashMap ch))
                 (sub_id (subscription (h ! x))) = Some ns \<and> x \<in> set ns"
    and "y \<in> set ((bs(p := bs p @ [a])) j) \<Longrightarrow>
           fn (subscription (h ! x)) = fn (subscription (h ! y)) \<Longrightarrow> x = y"
proof -
  have xin: "x = a \<or> x \<in> set (bs i)" using x by (auto split: if_splits)
  show "sub_id (subscription (h ! x)) = hashFn e (fn (subscription (h ! x)))"
    using xin ke wf_chanD_idx(1)[OF wc] by auto
  show "\<exists>ns. map_of (AList.update (sub_id (subscription (h ! a))) (fnArray @ [a]) (fnHashMap ch))
                 (sub_id (subscription (h ! x))) = Some ns \<and> x \<in> set ns"
  proof (cases "x = a")
    case True
    then show ?thesis by (simp add: map_of_update)
  next
    case False
    then have xi: "x \<in> set (bs i)" using xin by simp
    from wf_chanD_idx(2)[OF wc xi] obtain ns where
      ns: "map_of (fnHashMap ch) (sub_id (subscription (h ! x))) = Some ns" "x \<in> set ns" by blast
    show ?thesis
    proof (cases "sub_id (subscription (h ! x)) = sub_id (subscription (h ! a))")
      case True
      then have "fnArray = ns" using ns(1) fa by simp
      then show ?thesis using True ns(2) by (simp add: map_of_update)
    next
      case False
      then show ?thesis using ns by (simp add: map_of_update)
    qed
  qed
  assume y: "y \<in> set ((bs(p := bs p @ [a])) j)"
     and eq: "fn (subscription (h ! x)) = fn (subscription (h ! y))"
  have yin: "y = a \<or> y \<in> set (bs j)" using y by (auto split: if_splits)
  show "x = y"
  proof (cases "x = a")
    case True
    then show ?thesis using yin eq fresh[of y j] by auto
  next
    case False
    then have xi: "x \<in> set (bs i)" using xin by simp
    show ?thesis
    proof (cases "y = a")
      case True
      then show ?thesis using xi eq fresh[of x i] by auto
    next
      case False
      then have "y \<in> set (bs j)" using yin by simp
      then show ?thesis using wf_chanD_idx(3)[OF wc xi _ eq] by simp
    qed
  qed
qed

text \<open>Linking a detached node into an empty bucket.\<close>

lemma wf_link_empty:
  assumes wf: "wf_state e s B" and c: "c < length (chans s)" and a: "a < length (nodes s)"
      and det: "\<forall>c i. a \<notin> set (B c i)"
      and pa: "priority (nodes s ! a) = p" and ka: "sub_id (subscription (nodes s ! a)) = k"
      and ke: "k = hashFn e (fn (subscription (nodes s ! a)))"
      and fresh: "\<And>i b. b \<in> set (B c i) \<Longrightarrow>
                    fn (subscription (nodes s ! b)) \<noteq> fn (subscription (nodes s ! a))"
      and emp: "matrix_get (priorityMatrix (chans s ! c)) p = None"
      and fa: "fnArray = (case map_of (fnHashMap (chans s ! c)) k of None \<Rightarrow> [] | Some ns \<Rightarrow> ns)"
  shows "wf_state e
           (upd_chan c (\<lambda>ch. ch\<lparr>priorityMatrix := matrix_set (priorityMatrix ch) p (Some a)\<rparr>)
             (upd_chan c (\<lambda>ch. ch\<lparr>fnHashMap := AList.update k (fnArray @ [a]) (fnHashMap ch)\<rparr>) s))
           (set_bucket B c p (B c p @ [a]))"
    (is "wf_state e ?s' ?B'")
proof -
  let ?ch = "chans s ! c"
  let ?ch' = "?ch\<lparr>fnHashMap := AList.update k (fnArray @ [a]) (fnHashMap ?ch),
                   priorityMatrix := matrix_set (priorityMatrix ?ch) p (Some a)\<rparr>"
  have wc: "wf_chan e (nodes s) ?ch (B c)" by (rule wf_stateD1[OF wf c])
  have clean: "prev (nodes s ! a) = None" "next (nodes s ! a) = None"
    using wf_stateD4[OF wf a det] by simp_all
  have Bp: "B c p = []"
    using wf_chanD(1)[OF wc, of p] emp by simp
  have ch': "chans ?s' = (chans s)[c := ?ch']" "nodes ?s' = nodes s"
    using c by (simp_all add: comp_def)
  have fa_in: "\<exists>i. n \<in> set (B c i)" and fa_id: "sub_id (subscription (nodes s ! n)) = k"
    if "n \<in> set fnArray" for n
    using that wf_chanD(5,6)[OF wc, of k] fa by (auto split: option.splits)
  have fa_d: "distinct fnArray"
    using wf_chanD(4)[OF wc, of k] fa by (auto split: option.splits)
  have a_fa: "a \<notin> set fnArray" using fa_in det by blast
  have det': "\<forall>i. a \<notin> set (B c i)" using det by simp
  have ke': "sub_id (subscription (nodes s ! a)) = hashFn e (fn (subscription (nodes s ! a)))"
    using ka ke by simp
  have fa': "fnArray = (case map_of (fnHashMap (chans s ! c)) (sub_id (subscription (nodes s ! a))) of
                          None \<Rightarrow> [] | Some ns \<Rightarrow> ns)"
    using fa ka by simp
  have wc': "wf_chan e (nodes s) ?ch' (?B' c)"
  proof (rule wf_chanI)
    fix i
    show "chain (nodes s) None (matrix_get (priorityMatrix ?ch') i) (?B' c i) None"
      using wf_chanD(1)[OF wc, of i] a clean Bp by simp
    show "distinct (?B' c i)" using wf_chanD(3)[OF wc, of i] Bp by simp
  next
    fix i b assume "b \<in> set (?B' c i)"
    then show "priority (nodes s ! b) = i"
      using wf_chanD(2)[OF wc, of b i] Bp pa by (auto split: if_splits)
  next
    fix k' ns assume m: "map_of (fnHashMap ?ch') k' = Some ns"
    show "distinct ns"
      using m fa_d a_fa wf_chanD(4)[OF wc, of k' ns] by (auto simp: map_of_update split: if_splits)
    fix n assume n: "n \<in> set ns"
    show "\<exists>i. n \<in> set (?B' c i)"
    proof (cases "n = a")
      case True
      then show ?thesis by (auto intro: exI[of _ p])
    next
      case False
      then have "\<exists>i. n \<in> set (B c i)"
        using m n fa_in wf_chanD(5)[OF wc, of k' ns n] by (auto simp: map_of_update split: if_splits)
      then obtain i where "n \<in> set (B c i)" ..
      then have "n \<in> set (?B' c i)" by auto
      then show ?thesis ..
    qed
    show "sub_id (subscription (nodes s ! n)) = k'"
      using m n fa_id ka wf_chanD(6)[OF wc, of k' ns n] by (auto simp: map_of_update split: if_splits)
  next
    fix i x assume "x \<in> set (?B' c i)"
    then have x: "x \<in> set (((B c)(p := B c p @ [a])) i)" by simp
    note ia = idx_add[OF wc det' ke' fresh fa' x]
    show "sub_id (subscription (nodes s ! x)) = hashFn e (fn (subscription (nodes s ! x)))"
      by (rule ia(1))
    show "\<exists>ns. map_of (fnHashMap ?ch') (sub_id (subscription (nodes s ! x))) = Some ns \<and> x \<in> set ns"
      using ia(2) ka by simp
  next
    fix i j x y
    assume "x \<in> set (?B' c i)" "y \<in> set (?B' c j)"
      and eq: "fn (subscription (nodes s ! x)) = fn (subscription (nodes s ! y))"
    then have x: "x \<in> set (((B c)(p := B c p @ [a])) i)"
      and y: "y \<in> set (((B c)(p := B c p @ [a])) j)" by simp_all
    show "x = y" by (rule idx_add(3)[OF wc det' ke' fresh fa' x y eq])
  qed
  show ?thesis
  proof (rule wf_stateI)
    fix d assume "d < length (chans ?s')"
    then have d: "d < length (chans s)" by simp
    show "wf_chan e (nodes ?s') (chans ?s' ! d) (?B' d)"
    proof (cases "d = c")
      case True
      then show ?thesis using wc' c by (simp add: ch')
    next
      case False
      then have "?B' d = B d" by (simp add: fun_eq_iff)
      then show ?thesis using wf_stateD1[OF wf d] False by (simp add: ch')
    qed
  next
    fix d i assume "length (chans ?s') \<le> d"
    then show "?B' d i = []" using wf_stateD2[OF wf, of d i] c by simp
  next
    fix d d' i j b assume "b \<in> set (?B' d i)" "b \<in> set (?B' d' j)"
    then show "d = d'"
      using det wf_stateD3[OF wf, of b d i d' j] Bp by (auto split: if_splits)
  next
    fix b assume b: "b < length (nodes ?s')" "\<forall>d i. b \<notin> set (?B' d i)"
    have "b \<notin> set (B d i)" for d i
      using b(2)[rule_format, of d i] Bp by (cases "d = c \<and> i = p") auto
    with b(1) have "b < length (nodes s)" "\<forall>d i. b \<notin> set (B d i)" by simp_all
    then show "prev (nodes ?s' ! b) = None \<and> next (nodes ?s' ! b) = None"
      using wf_stateD4[OF wf] by simp
  next
    fix d assume "d \<in> snd ` set (channels ?s')"
    then show "d < length (chans ?s')" using wf_stateD5[OF wf, of d] by simp
  next
    fix t assume "t \<in> set (timers ?s')"
    then show "task_chan t < length (chans ?s')" using wf_stateD6[OF wf, of t] by simp
  qed
qed


text \<open>Linking a detached node behind the last node of a bucket.\<close>

lemma wf_link_last:
  assumes wf: "wf_state e s B" and c: "c < length (chans s)" and a: "a < length (nodes s)"
      and det: "\<forall>c i. a \<notin> set (B c i)"
      and pa: "priority (nodes s ! a) = p" and ka: "sub_id (subscription (nodes s ! a)) = k"
      and ke: "k = hashFn e (fn (subscription (nodes s ! a)))"
      and fresh: "\<And>i b. b \<in> set (B c i) \<Longrightarrow>
                    fn (subscription (nodes s ! b)) \<noteq> fn (subscription (nodes s ! a))"
      and ne: "matrix_get (priorityMatrix (chans s ! c)) p = Some head"
      and fa: "fnArray = (case map_of (fnHashMap (chans s ! c)) k of None \<Rightarrow> [] | Some ns \<Rightarrow> ns)"
  shows "last_node (nodes s) head = Some (last (B c p))"
    and "wf_state e
           (upd_node a (\<lambda>n. n\<lparr>prev := Some (last (B c p))\<rparr>)
             (upd_node (last (B c p)) (\<lambda>n. n\<lparr>next := Some a\<rparr>)
               (upd_chan c (\<lambda>ch. ch\<lparr>fnHashMap := AList.update k (fnArray @ [a]) (fnHashMap ch)\<rparr>) s)))
           (set_bucket B c p (B c p @ [a]))"
    (is "wf_state e ?s' ?B'")
proof -
  let ?ch = "chans s ! c"
  let ?ch' = "?ch\<lparr>fnHashMap := AList.update k (fnArray @ [a]) (fnHashMap ?ch)\<rparr>"
  let ?as = "B c p"
  let ?l = "last ?as"
  let ?h = "nodes s"
  let ?h1 = "?h[?l := (?h ! ?l)\<lparr>next := Some a\<rparr>]"
  let ?h' = "?h1[a := (?h ! a)\<lparr>prev := Some ?l\<rparr>]"
  have wc: "wf_chan e ?h ?ch (B c)" by (rule wf_stateD1[OF wf c])
  have clean: "prev (?h ! a) = None" "next (?h ! a) = None"
    using wf_stateD4[OF wf a det] by simp_all
  have chn: "chain ?h None (Some head) ?as None"
    using wf_chanD(1)[OF wc, of p] ne by simp
  then have as_ne: "?as \<noteq> []" by auto
  then have l_in: "?l \<in> set ?as" by simp
  have la: "?l \<noteq> a" using l_in det by metis
  have l: "?l < length ?h" using wf_state_bound(1)[OF wf l_in] .
  show "last_node ?h head = Some ?l" by (rule last_node_chain[OF chn])
  have ch': "chans ?s' = (chans s)[c := ?ch']" using c by simp
  have h': "nodes ?s' = ?h'" using la by simp
  have same: "?h' ! b = ?h ! b" if "b \<noteq> ?l" "b \<noteq> a" for b
    using that by simp
  have h'l: "?h' ! ?l = (?h ! ?l)\<lparr>next := Some a\<rparr>" using la l by simp
  have h'a: "?h' ! a = (?h ! a)\<lparr>prev := Some ?l\<rparr>" using a by simp
  have keep: "priority (?h' ! b) = priority (?h ! b)"
             "subscription (?h' ! b) = subscription (?h ! b)" for b
    using h'l h'a same[of b] by (cases "b = a"; cases "b = ?l"; simp)+
  have other: "?h' ! b = ?h ! b" if "b \<in> set (B d i)" "d \<noteq> c \<or> i \<noteq> p" for b d i
  proof (rule same)
    show "b \<noteq> a" using that(1) det by metis
    show "b \<noteq> ?l" using wf_state_same_bucket[OF wf that(1), of c p] l_in that(2) by auto
  qed
  have fa_in: "\<exists>i. n \<in> set (B c i)" and fa_id: "sub_id (subscription (?h ! n)) = k"
    if "n \<in> set fnArray" for n
    using that wf_chanD(5,6)[OF wc, of k] fa by (auto split: option.splits)
  have fa_d: "distinct fnArray"
    using wf_chanD(4)[OF wc, of k] fa by (auto split: option.splits)
  have a_fa: "a \<notin> set fnArray" using fa_in det by blast
  have det': "\<forall>i. a \<notin> set (B c i)" using det by simp
  have ke': "sub_id (subscription (nodes s ! a)) = hashFn e (fn (subscription (nodes s ! a)))"
    using ka ke by simp
  have fa': "fnArray = (case map_of (fnHashMap (chans s ! c)) (sub_id (subscription (nodes s ! a))) of
                          None \<Rightarrow> [] | Some ns \<Rightarrow> ns)"
    using fa ka by simp
  have a_as: "a \<notin> set ?as" using det by simp
  have wc': "wf_chan e ?h' ?ch' (?B' c)"
  proof (rule wf_chanI)
    fix i
    show "chain ?h' None (matrix_get (priorityMatrix ?ch') i) (?B' c i) None"
    proof (cases "i = p")
      case True
      have "chain ?h1 None (Some head) ?as (Some a)"
        by (rule chain_set_next_last[OF chn as_ne wf_chanD(3)[OF wc]])
      then have "chain ?h' None (Some head) ?as (Some a)"
        by (rule chain_upd_other[OF _ a_as])
      moreover have "chain ?h' (Some ?l) (Some a) [a] None"
        using a h'a clean by simp
      ultimately have "chain ?h' None (Some head) (?as @ [a]) None"
        using as_ne unfolding chain_append by auto
      then show ?thesis using True ne by simp
    next
      case False
      have "chain ?h' None (matrix_get (priorityMatrix ?ch) i) (B c i) None"
      proof (rule chain_frame[OF wf_chanD(1)[OF wc, of i]])
        show "length ?h \<le> length ?h'" by simp
        fix b assume "b \<in> set (B c i)"
        then have "?h' ! b = ?h ! b" using other[of b c i] False by simp
        then show "prev (?h' ! b) = prev (?h ! b) \<and> next (?h' ! b) = next (?h ! b)" by simp
      qed
      then show ?thesis using False by simp
    qed
    show "distinct (?B' c i)"
      using wf_chanD(3)[OF wc, of i] wf_chanD(3)[OF wc, of p] a_as by simp
  next
    fix i b assume "b \<in> set (?B' c i)"
    then have "priority (?h ! b) = i"
      using wf_chanD(2)[OF wc, of b i] pa by (auto split: if_splits)
    then show "priority (?h' ! b) = i" using keep(1)[of b] by simp
  next
    fix k' ns assume m: "map_of (fnHashMap ?ch') k' = Some ns"
    show "distinct ns"
      using m fa_d a_fa wf_chanD(4)[OF wc, of k' ns] by (auto simp: map_of_update split: if_splits)
    fix n assume n: "n \<in> set ns"
    show "\<exists>i. n \<in> set (?B' c i)"
    proof (cases "n = a")
      case True
      then show ?thesis by (auto intro: exI[of _ p])
    next
      case False
      then have "\<exists>i. n \<in> set (B c i)"
        using m n fa_in wf_chanD(5)[OF wc, of k' ns n] by (auto simp: map_of_update split: if_splits)
      then obtain i where "n \<in> set (B c i)" ..
      then have "n \<in> set (?B' c i)" by auto
      then show ?thesis ..
    qed
    have "sub_id (subscription (?h ! n)) = k'"
      using m n fa_id ka wf_chanD(6)[OF wc, of k' ns n] by (auto simp: map_of_update split: if_splits)
    then show "sub_id (subscription (?h' ! n)) = k'" using keep(2)[of n] by simp
  next
    fix i x assume "x \<in> set (?B' c i)"
    then have x: "x \<in> set (((B c)(p := B c p @ [a])) i)" by simp
    note ia = idx_add[OF wc det' ke' fresh fa' x]
    show "sub_id (subscription (?h' ! x)) = hashFn e (fn (subscription (?h' ! x)))"
      using ia(1) keep(2)[of x] by simp
    show "\<exists>ns. map_of (fnHashMap ?ch') (sub_id (subscription (?h' ! x))) = Some ns \<and> x \<in> set ns"
      using ia(2) ka keep(2)[of x] by simp
  next
    fix i j x y
    assume "x \<in> set (?B' c i)" "y \<in> set (?B' c j)"
      and "fn (subscription (?h' ! x)) = fn (subscription (?h' ! y))"
    then have x: "x \<in> set (((B c)(p := B c p @ [a])) i)"
      and y: "y \<in> set (((B c)(p := B c p @ [a])) j)"
      and eq: "fn (subscription (?h ! x)) = fn (subscription (?h ! y))"
      using keep(2)[of x] keep(2)[of y] by simp_all
    show "x = y" by (rule idx_add(3)[OF wc det' ke' fresh fa' x y eq])
  qed
  show "wf_state e ?s' ?B'"
  proof (rule wf_stateI)
    fix d assume "d < length (chans ?s')"
    then have d: "d < length (chans s)" by simp
    show "wf_chan e (nodes ?s') (chans ?s' ! d) (?B' d)"
    proof (cases "d = c")
      case True
      then show ?thesis using wc' c unfolding h' ch' by simp
    next
      case False
      then have B: "?B' d = B d" by (simp add: fun_eq_iff)
      have "wf_chan e ?h' (chans s ! d) (B d)"
      proof (rule wf_chan_frame[OF wf_stateD1[OF wf d]])
        show "length ?h \<le> length ?h'" by simp
        fix i b assume "b \<in> set (B d i)"
        then show "?h' ! b = ?h ! b" using other[of b d i] False by simp
      qed
      then show ?thesis using False B unfolding h' ch' by simp
    qed
  next
    fix d i assume "length (chans ?s') \<le> d"
    then show "?B' d i = []" using wf_stateD2[OF wf, of d i] c by simp
  next
    fix d d' i j b assume "b \<in> set (?B' d i)" "b \<in> set (?B' d' j)"
    then show "d = d'"
      using det wf_stateD3[OF wf, of b d i d' j] wf_stateD3[OF wf, of b c p d' j]
            wf_stateD3[OF wf, of b d i c p]
      by (auto split: if_splits)
  next
    fix b assume b: "b < length (nodes ?s')" "\<forall>d i. b \<notin> set (?B' d i)"
    have nb: "b \<notin> set (B d i)" for d i
      using b(2)[rule_format, of d i] by (cases "d = c \<and> i = p") auto
    have "b \<noteq> a" using b(2)[rule_format, of c p] by simp
    moreover have "b \<noteq> ?l" using nb[of c p] l_in by metis
    ultimately have "?h' ! b = ?h ! b" by (rule same[rotated])
    moreover have "b < length ?h" using b(1) unfolding h' by simp
    ultimately show "prev (nodes ?s' ! b) = None \<and> next (nodes ?s' ! b) = None"
      using wf_stateD4[OF wf, of b] nb unfolding h' by simp
  next
    fix d assume "d \<in> snd ` set (channels ?s')"
    then show "d < length (chans ?s')" using wf_stateD5[OF wf, of d] by simp
  next
    fix t assume "t \<in> set (timers ?s')"
    then show "task_chan t < length (chans ?s')" using wf_stateD6[OF wf, of t] by simp
  qed
qed

lemma length_upd [simp]:
  "length (chans (upd_chan c g s)) = length (chans s)"
  "length (nodes (upd_node a h s)) = length (nodes s)"
  by simp_all

lemma nth_upd_proj:
  assumes "\<And>x. P (g x) = P x"
  shows "P (xs[c := g (xs ! c)] ! d) = P (xs ! d)"
  by (cases "c < length xs"; cases "d = c"; simp add: assms list_update_beyond)

lemma upd_chan_keeps:
  "(\<And>x. commandMask (g x) = commandMask x) \<Longrightarrow>
     commandMask (chans (upd_chan c g s) ! d) = commandMask (chans s ! d)"
  "(\<And>x. callingNode (g x) = callingNode x) \<Longrightarrow>
     callingNode (chans (upd_chan c g s) ! d) = callingNode (chans s ! d)"
  "(\<And>x. namespace (g x) = namespace x) \<Longrightarrow>
     namespace (chans (upd_chan c g s) ! d) = namespace (chans s ! d)"
  "(\<And>x. priorityMatrix (g x) = priorityMatrix x) \<Longrightarrow>
     priorityMatrix (chans (upd_chan c g s) ! d) = priorityMatrix (chans s ! d)"
  "(\<And>x. fnHashMap (g x) = fnHashMap x) \<Longrightarrow>
     fnHashMap (chans (upd_chan c g s) ! d) = fnHashMap (chans s ! d)"
  by (simp_all add: nth_upd_proj[where P = commandMask] nth_upd_proj[where P = callingNode]
        nth_upd_proj[where P = namespace] nth_upd_proj[where P = priorityMatrix]
        nth_upd_proj[where P = fnHashMap])

lemma upd_node_keeps:
  "(\<And>x. subscription (g x) = subscription x) \<Longrightarrow>
     subscription (nodes (upd_node a g s) ! b) = subscription (nodes s ! b)"
  "(\<And>x. priority (g x) = priority x) \<Longrightarrow>
     priority (nodes (upd_node a g s) ! b) = priority (nodes s ! b)"
  by (simp_all add: nth_upd_proj[where P = subscription] nth_upd_proj[where P = priority])

lemma Channel_subscribe_frame:
  assumes "Channel_subscribe e c f p ctx s = Some (r, s')"
  shows "length (chans s') = length (chans s)" "channels s' = channels s"
    "timers s' = timers s" "calls s' = calls s" "console s' = console s" "effects s' = effects s"
    "commandMask (chans s' ! d) = commandMask (chans s ! d)"
    "callingNode (chans s' ! d) = callingNode (chans s ! d)"
    "namespace (chans s' ! d) = namespace (chans s ! d)"
    "length (nodes s') = Suc (length (nodes s))"
proof -
  let ?s1 = "s\<lparr>nodes := nodes s @
                 [\<lparr>prev = None, next = None,
                   subscription = \<lparr>sub_id = hashFn e f, fn = f, context = ctx\<rparr>,
                   priority = p\<rparr>]\<rparr>"
  have link: "length (chans t') = length (chans t) \<and> channels t' = channels t \<and>
       timers t' = timers t \<and> calls t' = calls t \<and> console t' = console t \<and>
       effects t' = effects t \<and> commandMask (chans t' ! d) = commandMask (chans t ! d) \<and>
       callingNode (chans t' ! d) = callingNode (chans t ! d) \<and>
       namespace (chans t' ! d) = namespace (chans t ! d) \<and> length (nodes t') = length (nodes t)"
    if "link_node c a p t = Some t'" for a t t'
    using that
    by (auto simp: link_node_def upd_chan_keeps simp del: chans_upd_chan split: option.splits)
  show "length (chans s') = length (chans s)" "channels s' = channels s"
    "timers s' = timers s" "calls s' = calls s" "console s' = console s" "effects s' = effects s"
    "commandMask (chans s' ! d) = commandMask (chans s ! d)"
    "callingNode (chans s' ! d) = callingNode (chans s ! d)"
    "namespace (chans s' ! d) = namespace (chans s ! d)"
    "length (nodes s') = Suc (length (nodes s))"
    using assms
    by (auto simp: Channel_subscribe_def Let_def upd_chan_keeps simp del: chans_upd_chan
             split: if_splits option.splits dest!: link)
qed

lemma registered_wf:
  assumes "wf_state e s B" "c < length (chans s)"
  shows "registered e s c f \<longleftrightarrow>
     (\<exists>n \<in> set (case map_of (fnHashMap (chans s ! c)) (hashFn e f) of None \<Rightarrow> [] | Some ns \<Rightarrow> ns).
        fn (subscription ((nodes s @ [x]) ! n)) = f)"
proof -
  have "n < length (nodes s)"
    if "map_of (fnHashMap (chans s ! c)) (hashFn e f) = Some ns" "n \<in> set ns" for n ns
    using wf_chanD(5)[OF wf_stateD1[OF assms] that] wf_state_bound(1)[OF assms(1)] by blast
  then show ?thesis
    by (cases "map_of (fnHashMap (chans s ! c)) (hashFn e f)")
       (auto simp: registered_def nth_append)
qed

lemma registered_iff:
  assumes wf: "wf_state e s B" and c: "c < length (chans s)"
  shows "registered e s c f \<longleftrightarrow>
           (\<exists>i. \<exists>b \<in> set (B c i). fn (subscription (nodes s ! b)) = f)"
proof
  note wc = wf_stateD1[OF wf c]
  assume "registered e s c f"
  then obtain ns n where ns: "map_of (fnHashMap (chans s ! c)) (hashFn e f) = Some ns"
    and n: "n \<in> set ns" "fn (subscription (nodes s ! n)) = f"
    using registered_unfold by blast
  from wf_chanD(5)[OF wc ns n(1)] n(2)
  show "\<exists>i. \<exists>b \<in> set (B c i). fn (subscription (nodes s ! b)) = f" by blast
next
  note wc = wf_stateD1[OF wf c]
  assume "\<exists>i. \<exists>b \<in> set (B c i). fn (subscription (nodes s ! b)) = f"
  then obtain i b where b: "b \<in> set (B c i)" "fn (subscription (nodes s ! b)) = f" by blast
  from wf_chanD_idx(1,2)[OF wc b(1)] b(2) obtain ns where
    "map_of (fnHashMap (chans s ! c)) (hashFn e f) = Some ns" "b \<in> set ns" by auto
  moreover have "b < length (nodes s)" by (rule wf_state_bound(1)[OF wf b(1)])
  ultimately show "registered e s c f" using b(2) by (auto simp: registered_def)
qed

lemma Channel_subscribe_wf:
  assumes wf: "wf_state e s B" and c: "c < length (chans s)" and nr: "\<not> registered e s c f"
  shows "\<exists>s'. Channel_subscribe e c f p ctx s = Some (Inr (), s') \<and>
              wf_state e s' (set_bucket B c p (B c p @ [length (nodes s)])) \<and>
              fn (subscription (nodes s' ! length (nodes s))) = f \<and>
              (\<forall>b < length (nodes s). subscription (nodes s' ! b) = subscription (nodes s ! b))"
proof -
  let ?a = "length (nodes s)"
  let ?k = "hashFn e f"
  let ?new = "\<lparr>prev = None, next = None,
               subscription = \<lparr>sub_id = ?k, fn = f, context = ctx\<rparr>, priority = p\<rparr>"
  let ?s1 = "s\<lparr>nodes := nodes s @ [?new]\<rparr>"
  let ?fa = "case map_of (fnHashMap (chans s ! c)) ?k of None \<Rightarrow> [] | Some ns \<Rightarrow> ns"
  let ?s2 = "upd_chan c (\<lambda>ch. ch\<lparr>fnHashMap := AList.update ?k (?fa @ [?a]) (fnHashMap ch)\<rparr>) ?s1"
  have wf1: "wf_state e ?s1 B" by (rule wf_state_alloc[OF wf]) simp_all
  have c1: "c < length (chans ?s1)" using c by simp
  have a1: "?a < length (nodes ?s1)" by simp
  have det: "\<forall>c i. ?a \<notin> set (B c i)"
    using wf_state_bound(1)[OF wf] by (metis less_irrefl)
  have pa: "priority (nodes ?s1 ! ?a) = p" and ka: "sub_id (subscription (nodes ?s1 ! ?a)) = ?k"
    by simp_all
  have fa: "?fa = (case map_of (fnHashMap (chans ?s1 ! c)) ?k of None \<Rightarrow> [] | Some ns \<Rightarrow> ns)"
    by simp
  have nodup: "\<not> (\<exists>n \<in> set ?fa. fn (subscription (nodes ?s1 ! n)) = f)"
    using nr registered_wf[OF wf c, of f ?new] by simp
  have ke: "?k = hashFn e (fn (subscription (nodes ?s1 ! ?a)))" by simp
  have fresh: "fn (subscription (nodes ?s1 ! b)) \<noteq> fn (subscription (nodes ?s1 ! ?a))"
    if "b \<in> set (B c i)" for i b
  proof -
    have "b < length (nodes s)" by (rule wf_state_bound(1)[OF wf that])
    moreover have "fn (subscription (nodes s ! b)) \<noteq> f"
      using nr registered_iff[OF wf c, of f] that by blast
    ultimately show ?thesis by (simp add: nth_append)
  qed
  have cs: "Channel_subscribe e c f p ctx s =
              (case link_node c ?a p ?s2 of None \<Rightarrow> None | Some s2 \<Rightarrow> Some (Inr (), s2))"
  proof (cases "map_of (fnHashMap (chans s ! c)) ?k")
    case None
    then show ?thesis by (simp add: Channel_subscribe_def Let_def)
  next
    case (Some ns)
    with nodup have "find (\<lambda>node. fn (subscription ((nodes s @ [?new]) ! node)) = f) ns = None"
      by (simp add: find_None_iff)
    then show ?thesis using Some by (simp add: Channel_subscribe_def Let_def)
  qed
  have m2: "matrix_get (priorityMatrix (chans ?s2 ! c)) p = matrix_get (priorityMatrix (chans s ! c)) p"
    using c by simp
  show ?thesis
  proof (cases "matrix_get (priorityMatrix (chans s ! c)) p")
    case None
    let ?s' = "upd_chan c (\<lambda>ch. ch\<lparr>priorityMatrix := matrix_set (priorityMatrix ch) p (Some ?a)\<rparr>) ?s2"
    have "link_node c ?a p ?s2 = Some ?s'"
      using None m2 by (simp add: link_node_def)
    moreover have "wf_state e ?s' (set_bucket B c p (B c p @ [?a]))"
      using wf_link_empty[OF wf1 c1 a1 det pa ka ke fresh _ fa] None by simp
    moreover have "fn (subscription (nodes ?s' ! ?a)) = f" by simp
    moreover have "\<forall>b < ?a. subscription (nodes ?s' ! b) = subscription (nodes s ! b)"
      by (simp add: nth_append)
    ultimately show ?thesis using cs by simp
  next
    case (Some head)
    let ?l = "last (B c p)"
    let ?s' = "upd_node ?a (\<lambda>n. n\<lparr>prev := Some ?l\<rparr>) (upd_node ?l (\<lambda>n. n\<lparr>next := Some ?a\<rparr>) ?s2)"
    have ne: "matrix_get (priorityMatrix (chans ?s1 ! c)) p = Some head" using Some by simp
    have ln: "last_node (nodes ?s2) head = Some ?l"
      using wf_link_last(1)[OF wf1 c1 a1 det pa ka ke fresh ne fa] by simp
    have "link_node c ?a p ?s2 = Some ?s'"
      using Some m2 ln by (simp add: link_node_def)
    moreover have "wf_state e ?s' (set_bucket B c p (B c p @ [?a]))"
      using wf_link_last(2)[OF wf1 c1 a1 det pa ka ke fresh ne fa] by simp
    moreover have "fn (subscription (nodes ?s' ! ?a)) = f"
      by (simp add: upd_node_keeps del: nodes_upd_node)
    moreover have "\<forall>b < ?a. subscription (nodes ?s' ! b) = subscription (nodes s ! b)"
      by (simp add: upd_node_keeps nth_append del: nodes_upd_node)
    ultimately show ?thesis using cs by simp
  qed
qed

lemma Channel_subscribe_dup_wf:
  assumes wf: "wf_state e s B" and r: "registered e s c f"
  shows "\<exists>err s'. Channel_subscribe e c f p ctx s = Some (Inl err, s') \<and> wf_state e s' B"
proof -
  from Channel_subscribe_duplicate[OF r, of p ctx] obtain err where
    "Channel_subscribe e c f p ctx s =
       Some (Inl err,
             s\<lparr>nodes := nodes s @
                [\<lparr>prev = None, next = None,
                  subscription = \<lparr>sub_id = hashFn e f, fn = f, context = ctx\<rparr>,
                  priority = p\<rparr>]\<rparr>)"
    by blast
  then show ?thesis using wf_state_alloc[OF wf] by simp
qed

lemma chain_frame_last:
  assumes "chain h p x as y" "as \<noteq> []" "distinct as" "length h \<le> length h'"
      and "\<And>b. b \<in> set as \<Longrightarrow> prev (h' ! b) = prev (h ! b)"
      and "\<And>b. b \<in> set as \<Longrightarrow> b \<noteq> last as \<Longrightarrow> next (h' ! b) = next (h ! b)"
      and "next (h' ! last as) = y'"
  shows "chain h' p x as y'"
  using assms
proof (induction as arbitrary: p x)
  case Nil
  then show ?case by simp
next
  case (Cons a as)
  show ?case
  proof (cases "as = []")
    case True
    then show ?thesis using Cons.prems by auto
  next
    case False
    then have "a \<noteq> last as" using Cons.prems(3) by auto
    then have "chain h' (Some a) (next (h ! a)) as y'"
      using Cons.prems False by (intro Cons.IH) auto
    then show ?thesis using Cons.prems False \<open>a \<noteq> last as\<close> by auto
  qed
qed

lemma chain_frame_hd:
  assumes "chain h p x as y" "as \<noteq> []" "distinct as" "length h \<le> length h'"
      and "\<And>b. b \<in> set as \<Longrightarrow> next (h' ! b) = next (h ! b)"
      and "\<And>b. b \<in> set as \<Longrightarrow> b \<noteq> hd as \<Longrightarrow> prev (h' ! b) = prev (h ! b)"
      and "prev (h' ! hd as) = p'"
  shows "chain h' p' x as y"
proof -
  obtain a bs where as: "as = a # bs" using assms(2) by (cases as) auto
  have "chain h (Some a) (next (h ! a)) bs y" using assms(1) as by simp
  then have "chain h' (Some a) (next (h ! a)) bs y"
  proof (rule chain_frame)
    show "length h \<le> length h'" by (rule assms(4))
    fix b assume "b \<in> set bs"
    then show "prev (h' ! b) = prev (h ! b) \<and> next (h' ! b) = next (h ! b)"
      using assms(3,5,6) as by auto
  qed
  then show ?thesis using assms as by auto
qed

text \<open>Taking a node out of a chain, in terms of what the new heap must satisfy.\<close>

lemma chain_remove:
  assumes ch: "chain h p x (xs @ a # ys) y" and d: "distinct (xs @ a # ys)"
      and len: "length h \<le> length h'"
      and same: "\<And>b. b \<in> set (xs @ ys) \<Longrightarrow> (xs = [] \<or> b \<noteq> last xs) \<Longrightarrow>
                   (ys = [] \<or> b \<noteq> hd ys) \<Longrightarrow>
                   prev (h' ! b) = prev (h ! b) \<and> next (h' ! b) = next (h ! b)"
      and lst: "xs \<noteq> [] \<Longrightarrow> next (h' ! last xs) = next (h ! a) \<and>
                   prev (h' ! last xs) = prev (h ! last xs)"
      and hed: "ys \<noteq> [] \<Longrightarrow> prev (h' ! hd ys) = prev (h ! a) \<and>
                   next (h' ! hd ys) = next (h ! hd ys)"
  shows "chain h' p (if xs = [] then next (h ! a) else x) (xs @ ys) y"
proof -
  let ?q = "if xs = [] then p else Some (last xs)"
  from ch obtain z where z: "chain h p x xs z" "chain h ?q z (a # ys) y"
    by (auto simp: chain_append)
  then have za: "z = Some a" and pa: "prev (h ! a) = ?q"
    and t: "chain h (Some a) (next (h ! a)) ys y" by auto
  have dj: "set xs \<inter> set ys = {}" using d by auto
  have t': "chain h' ?q (next (h ! a)) ys y"
  proof (cases "ys = []")
    case True
    then show ?thesis using t by simp
  next
    case False
    show ?thesis
    proof (rule chain_frame_hd[OF t False _ len])
      show "distinct ys" using d by simp
      show "prev (h' ! hd ys) = ?q" using hed[OF False] pa by simp
    next
      fix b assume b: "b \<in> set ys"
      show "next (h' ! b) = next (h ! b)"
      proof (cases "b = hd ys")
        case True
        then show ?thesis using hed[OF False] by simp
      next
        case False
        moreover have "xs = [] \<or> b \<noteq> last xs" using b dj last_in_set[of xs] by blast
        ultimately show ?thesis using same[of b] b by simp
      qed
    next
      fix b assume b: "b \<in> set ys" "b \<noteq> hd ys"
      moreover have "xs = [] \<or> b \<noteq> last xs" using b dj last_in_set[of xs] by blast
      ultimately show "prev (h' ! b) = prev (h ! b)" using same[of b] by simp
    qed
  qed
  show ?thesis
  proof (cases "xs = []")
    case True
    then show ?thesis using t' by simp
  next
    case False
    have "chain h' p x xs (next (h ! a))"
    proof (rule chain_frame_last[OF z(1) False _ len])
      show "distinct xs" using d by simp
      show "next (h' ! last xs) = next (h ! a)" using lst[OF False] by simp
    next
      fix b assume b: "b \<in> set xs"
      show "prev (h' ! b) = prev (h ! b)"
      proof (cases "b = last xs")
        case True
        then show ?thesis using lst[OF False] by simp
      next
        case False
        moreover have "ys = [] \<or> b \<noteq> hd ys" using b dj hd_in_set[of ys] by blast
        ultimately show ?thesis using same[of b] b by simp
      qed
    next
      fix b assume b: "b \<in> set xs" "b \<noteq> last xs"
      moreover have "ys = [] \<or> b \<noteq> hd ys" using b dj hd_in_set[of ys] by blast
      ultimately show "next (h' ! b) = next (h ! b)" using same[of b] by simp
    qed
    then show ?thesis using t' False by (auto simp: chain_append)
  qed
qed

lemma find_fn_Some:
  "find_fn h f ns k = Some (idx, node) \<Longrightarrow>
     k \<le> idx \<and> idx - k < length ns \<and> ns ! (idx - k) = node \<and> fn (subscription (h ! node)) = f"
proof (induction ns arbitrary: k)
  case Nil
  then show ?case by simp
next
  case (Cons n ns)
  show ?case
  proof (cases "fn (subscription (h ! n)) = f")
    case True
    then show ?thesis using Cons.prems by auto
  next
    case False
    then have "find_fn h f ns (Suc k) = Some (idx, node)" using Cons.prems by simp
    from Cons.IH[OF this] show ?thesis by (auto simp: Suc_diff_le)
  qed
qed

lemma find_fn_None:
  "find_fn h f ns k = None \<longleftrightarrow> (\<forall>n \<in> set ns. fn (subscription (h ! n)) \<noteq> f)"
  by (induction ns arbitrary: k) auto

lemma splice_distinct:
  assumes "distinct xs" "i < length xs"
  shows "distinct (take i xs @ drop (Suc i) xs)"
    and "set (take i xs @ drop (Suc i) xs) = set xs - {xs ! i}"
proof -
  have xs: "xs = take i xs @ xs ! i # drop (Suc i) xs"
    using assms(2) by (rule id_take_nth_drop)
  then have "distinct (take i xs @ xs ! i # drop (Suc i) xs)" using assms(1) by simp
  then show "distinct (take i xs @ drop (Suc i) xs)" by simp
  have "set xs = set (take i xs) \<union> {xs ! i} \<union> set (drop (Suc i) xs)"
    by (subst xs) auto
  moreover have "xs ! i \<notin> set (take i xs)" "xs ! i \<notin> set (drop (Suc i) xs)"
    using \<open>distinct (take i xs @ xs ! i # drop (Suc i) xs)\<close> by auto
  ultimately show "set (take i xs @ drop (Suc i) xs) = set xs - {xs ! i}" by auto
qed

text \<open>What \<open>unlink\<close> does to the store of nodes and to the channel.\<close>

lemma unlink_nodes:
  assumes n: "node < length (nodes s)"
      and P: "prev (nodes s ! node) = P" and N: "next (nodes s ! node) = N"
      and pr: "\<And>pr. P = Some pr \<Longrightarrow> pr < length (nodes s) \<and> pr \<noteq> node"
      and nx: "\<And>nx. N = Some nx \<Longrightarrow> nx < length (nodes s) \<and> nx \<noteq> node"
      and pn: "\<And>pr nx. P = Some pr \<Longrightarrow> N = Some nx \<Longrightarrow> pr \<noteq> nx"
  shows "length (nodes (unlink c node s)) = length (nodes s)"
    and "prev (nodes (unlink c node s) ! node) = None"
    and "next (nodes (unlink c node s) ! node) = None"
    and "\<And>b. P = Some b \<Longrightarrow> next (nodes (unlink c node s) ! b) = N \<and>
              prev (nodes (unlink c node s) ! b) = prev (nodes s ! b)"
    and "\<And>b. N = Some b \<Longrightarrow> prev (nodes (unlink c node s) ! b) = P \<and>
              next (nodes (unlink c node s) ! b) = next (nodes s ! b)"
    and "\<And>b. b \<noteq> node \<Longrightarrow> Some b \<noteq> P \<Longrightarrow> Some b \<noteq> N \<Longrightarrow>
              nodes (unlink c node s) ! b = nodes s ! b"
    and "\<And>b. subscription (nodes (unlink c node s) ! b) = subscription (nodes s ! b)"
    and "\<And>b. priority (nodes (unlink c node s) ! b) = priority (nodes s ! b)"
proof -
  show "length (nodes (unlink c node s)) = length (nodes s)"
    by (simp add: unlink_def Let_def split: option.splits)
  show "\<And>b. subscription (nodes (unlink c node s) ! b) = subscription (nodes s ! b)"
    by (simp add: unlink_def Let_def upd_node_keeps del: nodes_upd_node split: option.splits)
  show "\<And>b. priority (nodes (unlink c node s) ! b) = priority (nodes s ! b)"
    by (simp add: unlink_def Let_def upd_node_keeps del: nodes_upd_node split: option.splits)
  show "prev (nodes (unlink c node s) ! node) = None"
    using n P N pr nx pn
    by (cases P; cases N) (auto simp: unlink_def Let_def nth_list_update)
  show "next (nodes (unlink c node s) ! node) = None"
    using n P N pr nx pn
    by (cases P; cases N) (auto simp: unlink_def Let_def nth_list_update)
  show "\<And>b. P = Some b \<Longrightarrow> next (nodes (unlink c node s) ! b) = N \<and>
              prev (nodes (unlink c node s) ! b) = prev (nodes s ! b)"
    using n P N pr nx pn
    by (cases N) (auto simp: unlink_def Let_def nth_list_update)
  show "\<And>b. N = Some b \<Longrightarrow> prev (nodes (unlink c node s) ! b) = P \<and>
              next (nodes (unlink c node s) ! b) = next (nodes s ! b)"
    using n P N pr nx pn
    by (cases P) (auto simp: unlink_def Let_def nth_list_update)
  show "\<And>b. b \<noteq> node \<Longrightarrow> Some b \<noteq> P \<Longrightarrow> Some b \<noteq> N \<Longrightarrow>
              nodes (unlink c node s) ! b = nodes s ! b"
    using n P N pr nx pn
    by (cases P; cases N) (auto simp: unlink_def Let_def nth_list_update)
qed

lemma unlink_chans:
  assumes "node < length (nodes s)" "next (nodes s ! node) = N"
      and "\<And>nx. N = Some nx \<Longrightarrow> nx \<noteq> node"
  shows "chans (unlink c node s) =
           (if prev (nodes s ! node) = None
            then (chans s)[c := (chans s ! c)\<lparr>priorityMatrix :=
                     matrix_set (priorityMatrix (chans s ! c)) (priority (nodes s ! node)) N\<rparr>]
            else chans s)"
  using assms
  by (cases "prev (nodes s ! node)"; cases N)
     (auto simp: unlink_def Let_def nth_list_update split: option.splits)

lemma unlink_other [simp]:
  "channels (unlink c node s) = channels s" "timers (unlink c node s) = timers s"
  "calls (unlink c node s) = calls s" "console (unlink c node s) = console s"
  "effects (unlink c node s) = effects s"
  by (simp_all add: unlink_def Let_def split: option.splits)

text \<open>Removing a node that the index holds: the buckets lose exactly that node.\<close>

lemma wf_remove:
  assumes wf: "wf_state e s B" and c: "c < length (chans s)"
      and m: "map_of (fnHashMap (chans s ! c)) k = Some fnArray"
      and idx: "idx < length fnArray" and node: "fnArray ! idx = node"
      and i: "i = priority (nodes s ! node)"
  shows "node \<in> set (B c i)"
    and "wf_state e
           (upd_chan c
              (\<lambda>ch. ch\<lparr>fnHashMap :=
                 (if length fnArray \<le> 1 then AList.delete k (fnHashMap ch)
                  else AList.update k (take idx fnArray @ drop (Suc idx) fnArray) (fnHashMap ch))\<rparr>)
              (unlink c node s))
           (set_bucket B c i (remove1 node (B c i)))"
    (is "wf_state e _ ?B'")
    and "prev (nodes (unlink c node s) ! node) = None \<and>
         next (nodes (unlink c node s) ! node) = None"
proof -
  let ?h = "nodes s"
  let ?u = "unlink c node s"
  let ?h' = "nodes ?u"
  let ?ch = "chans s ! c"
  let ?m = "priorityMatrix ?ch"
  let ?fa' = "take idx fnArray @ drop (Suc idx) fnArray"
  have wc: "wf_chan e ?h ?ch (B c)" by (rule wf_stateD1[OF wf c])
  have nfa: "node \<in> set fnArray" using idx node by auto
  obtain i' where "node \<in> set (B c i')" using wf_chanD(5)[OF wc m nfa] ..
  moreover from this have "i' = i" using wf_chanD(2)[OF wc] i by simp
  ultimately show nB: "node \<in> set (B c i)" by simp
  then obtain xs ys where B: "B c i = xs @ node # ys" by (auto dest: split_list)
  have d: "distinct (xs @ node # ys)" using wf_chanD(3)[OF wc, of i] B by simp
  have rem: "remove1 node (B c i) = xs @ ys" using B d by (simp add: remove1_append)
  have chn: "chain ?h None (matrix_get ?m i) (xs @ node # ys) None"
    using wf_chanD(1)[OF wc, of i] B by simp
  let ?P = "if xs = [] then None else Some (last xs)"
  let ?N = "if ys = [] then None else Some (hd ys)"
  have n: "node < length ?h" and P: "prev (?h ! node) = ?P" and N: "next (?h ! node) = ?N"
    using chain_mid(1,2,3)[OF chn] by simp_all
  have inB: "xs \<noteq> [] \<Longrightarrow> last xs \<in> set (B c i)" "ys \<noteq> [] \<Longrightarrow> hd ys \<in> set (B c i)"
    using B by simp_all
  have pr: "pr < length ?h \<and> pr \<noteq> node" if "?P = Some pr" for pr
    using that inB(1) wf_state_bound(1)[OF wf, of pr c i] d last_in_set[of xs]
    by (auto split: if_splits)
  have nx: "nx < length ?h \<and> nx \<noteq> node" if "?N = Some nx" for nx
    using that inB(2) wf_state_bound(1)[OF wf, of nx c i] d hd_in_set[of ys]
    by (auto split: if_splits)
  have pn: "pr \<noteq> nx" if "?P = Some pr" "?N = Some nx" for pr nx
  proof -
    have dj: "set xs \<inter> set ys = {}" using d by auto
    from that have ne: "xs \<noteq> []" "ys \<noteq> []" and e: "pr = last xs" "nx = hd ys"
      by (auto split: if_splits)
    have "last xs \<in> set xs" "hd ys \<in> set ys" using ne by simp_all
    then show ?thesis using dj e by auto
  qed
  note un = unlink_nodes[where c = c, OF n P N pr nx pn]
  have len: "length ?h \<le> length ?h'" using un(1) by simp
  have out: "?h' ! b = ?h ! b" if "b \<notin> set (B c i)" for b
  proof (rule un(6))
    show "b \<noteq> node" using that nB by auto
    show "Some b \<noteq> ?P" using that inB(1) by (auto split: if_splits)
    show "Some b \<noteq> ?N" using that inB(2) by (auto split: if_splits)
  qed
  define s' where "s' = upd_chan c
              (\<lambda>ch. ch\<lparr>fnHashMap :=
                 (if length fnArray \<le> 1 then AList.delete k (fnHashMap ch)
                  else AList.update k (take idx fnArray @ drop (Suc idx) fnArray) (fnHashMap ch))\<rparr>)
              (unlink c node s)"
  have nodes' [simp]: "nodes s' = ?h'" by (simp add: s'_def)
  have other' [simp]: "channels s' = channels s" "timers s' = timers s"
    by (simp_all add: s'_def)
  have mat: "matrix_get (priorityMatrix (chans s' ! c)) j =
               (if xs = [] \<and> j = i then ?N else matrix_get ?m j)" for j
    using c P unlink_chans[where c = c, OF n N] nx i by (auto simp: s'_def split: if_splits)
  have fh: "fnHashMap (chans s' ! c) =
              (if length fnArray \<le> 1 then AList.delete k (fnHashMap ?ch)
               else AList.update k ?fa' (fnHashMap ?ch))"
    using c P unlink_chans[where c = c, OF n N] nx by (auto simp: s'_def split: if_splits)
  have oth: "chans s' ! d = chans s ! d" if "d \<noteq> c" for d
    using that c P unlink_chans[where c = c, OF n N] nx by (auto simp: s'_def split: if_splits)
  have lc: "length (chans s') = length (chans s)"
    using c P unlink_chans[where c = c, OF n N] nx by (auto simp: s'_def split: if_splits)
  have fd: "distinct fnArray" by (rule wf_chanD(4)[OF wc m])
  have fa': "distinct ?fa'" "set ?fa' = set fnArray - {node}"
    using splice_distinct[OF fd idx] node by simp_all
  have one: "set fnArray = {node}" if "length fnArray \<le> 1"
    using that idx node by (cases fnArray) auto
  have idx_new: "n' \<noteq> node \<and> (\<exists>k0 ns0. map_of (fnHashMap ?ch) k0 = Some ns0 \<and> n' \<in> set ns0 \<and> k0 = k')
                 \<and> distinct ns'"
    if "map_of (fnHashMap (chans s' ! c)) k' = Some ns'" "n' \<in> set ns'" for k' ns' n'
  proof (cases "k' = k")
    case True
    then have "\<not> length fnArray \<le> 1" and "ns' = ?fa'"
      using that(1) unfolding fh by (auto simp: map_of_update map_of_delete split: if_splits)
    then show ?thesis using that(2) fa' m True by auto
  next
    case False
    then have old: "map_of (fnHashMap ?ch) k' = Some ns'"
      using that(1) unfolding fh by (auto simp: map_of_update map_of_delete split: if_splits)
    have "sub_id (subscription (?h ! n')) = k'" by (rule wf_chanD(6)[OF wc old that(2)])
    moreover have "sub_id (subscription (?h ! node)) = k" by (rule wf_chanD(6)[OF wc m nfa])
    ultimately have "n' \<noteq> node" using False by auto
    then show ?thesis using old that(2) wf_chanD(4)[OF wc old] by auto
  qed
  have sub: "b \<in> set (B d j)" if "b \<in> set (?B' d j)" for b d j
    using that set_remove1_subset[of node "B c i"] by (auto split: if_splits)
  have sup: "b \<in> set (?B' d j)" if "b \<in> set (B d j)" "b \<noteq> node" for b d j
    using that by auto
  have wc': "wf_chan e ?h' (chans s' ! c) (?B' c)"
  proof (rule wf_chanI)
    fix j
    show "chain ?h' None (matrix_get (priorityMatrix (chans s' ! c)) j) (?B' c j) None"
    proof (cases "j = i")
      case True
      have "chain ?h' None (if xs = [] then next (?h ! node) else matrix_get ?m i) (xs @ ys) None"
      proof (rule chain_remove[OF chn d len])
        fix b assume b: "b \<in> set (xs @ ys)" "xs = [] \<or> b \<noteq> last xs" "ys = [] \<or> b \<noteq> hd ys"
        have "?h' ! b = ?h ! b"
        proof (rule un(6))
          show "b \<noteq> node" using b(1) d by auto
          show "Some b \<noteq> ?P" using b(2) by auto
          show "Some b \<noteq> ?N" using b(3) by auto
        qed
        then show "prev (?h' ! b) = prev (?h ! b) \<and> next (?h' ! b) = next (?h ! b)" by simp
      next
        assume "xs \<noteq> []"
        then show "next (?h' ! last xs) = next (?h ! node) \<and> prev (?h' ! last xs) = prev (?h ! last xs)"
          using un(4)[of "last xs"] N by simp
      next
        assume "ys \<noteq> []"
        then show "prev (?h' ! hd ys) = prev (?h ! node) \<and> next (?h' ! hd ys) = next (?h ! hd ys)"
          using un(5)[of "hd ys"] P by simp
      qed
      then show ?thesis using True rem N
        by (cases "xs = []"; cases "ys = []"; simp add: mat)
    next
      case False
      have "chain ?h' None (matrix_get ?m j) (B c j) None"
      proof (rule chain_frame[OF wf_chanD(1)[OF wc, of j] len])
        fix b assume "b \<in> set (B c j)"
        then have "b \<notin> set (B c i)" using wf_state_same_bucket[OF wf, of b c j c i] False by auto
        then show "prev (?h' ! b) = prev (?h ! b) \<and> next (?h' ! b) = next (?h ! b)"
          using out by simp
      qed
      then show ?thesis using False by (simp add: mat)
    qed
    show "distinct (?B' c j)"
      using wf_chanD(3)[OF wc, of j] wf_chanD(3)[OF wc, of i] by (simp add: distinct_remove1)
  next
    fix j b assume "b \<in> set (?B' c j)"
    then have "b \<in> set (B c j)" by (rule sub)
    then show "priority (?h' ! b) = j" using wf_chanD(2)[OF wc] un(8) by simp
  next
    fix k' ns' assume m': "map_of (fnHashMap (chans s' ! c)) k' = Some ns'"
    show "distinct ns'"
    proof (cases "ns' = []")
      case True then show ?thesis by simp
    next
      case False
      then obtain n' where "n' \<in> set ns'" by (cases ns') auto
      then show ?thesis using idx_new[OF m'] by blast
    qed
    fix n' assume n': "n' \<in> set ns'"
    from idx_new[OF m' n'] obtain ns0 where
      nn: "n' \<noteq> node" and old: "map_of (fnHashMap ?ch) k' = Some ns0" "n' \<in> set ns0" by blast
    obtain j where j: "n' \<in> set (B c j)" using wf_chanD(5)[OF wc old] ..
    then have "n' \<in> set (?B' c j)" using nn by (rule sup)
    then show "\<exists>j. n' \<in> set (?B' c j)" ..
    show "sub_id (subscription (?h' ! n')) = k'"
      using wf_chanD(6)[OF wc old] un(7) by simp
  next
    fix j x assume x: "x \<in> set (?B' c j)"
    then have xj: "x \<in> set (B c j)" by (rule sub)
    have xn: "x \<noteq> node"
    proof (cases "j = i")
      case True
      then show ?thesis using x wf_chanD(3)[OF wc, of i] by (auto simp: set_remove1_eq)
    next
      case False
      then show ?thesis using wf_state_same_bucket[OF wf xj, of c i] nB by auto
    qed
    show "sub_id (subscription (?h' ! x)) = hashFn e (fn (subscription (?h' ! x)))"
      using wf_chanD_idx(1)[OF wc xj] un(7) by simp
    from wf_chanD_idx(2)[OF wc xj] obtain ns where
      ns: "map_of (fnHashMap ?ch) (sub_id (subscription (?h ! x))) = Some ns" "x \<in> set ns"
      by blast
    have "\<exists>ns. map_of (fnHashMap (chans s' ! c)) (sub_id (subscription (?h ! x))) = Some ns
                \<and> x \<in> set ns"
    proof (cases "sub_id (subscription (?h ! x)) = k")
      case True
      then have "ns = fnArray" using ns(1) m by simp
      then have xf: "x \<in> set fnArray" using ns(2) by simp
      then have "\<not> length fnArray \<le> 1" using one xn by auto
      then show ?thesis using True xf xn fa'(2) unfolding fh by (simp add: map_of_update)
    next
      case False
      then show ?thesis using ns unfolding fh by (simp add: map_of_update map_of_delete)
    qed
    then show "\<exists>ns. map_of (fnHashMap (chans s' ! c)) (sub_id (subscription (?h' ! x))) = Some ns
                \<and> x \<in> set ns"
      using un(7) by simp
  next
    fix j j' x y
    assume "x \<in> set (?B' c j)" "y \<in> set (?B' c j')"
      and "fn (subscription (?h' ! x)) = fn (subscription (?h' ! y))"
    then have "x \<in> set (B c j)" "y \<in> set (B c j')"
      "fn (subscription (?h ! x)) = fn (subscription (?h ! y))"
      using sub[of x c j] sub[of y c j'] un(7) by simp_all
    then show "x = y" by (rule wf_chanD_idx(3)[OF wc])
  qed
  have "wf_state e s' ?B'"
  proof (rule wf_stateI)
    fix d assume "d < length (chans s')"
    then have dl: "d < length (chans s)" using lc by simp
    show "wf_chan e (nodes s') (chans s' ! d) (?B' d)"
    proof (cases "d = c")
      case True
      then show ?thesis using wc' by simp
    next
      case False
      then have Bd: "?B' d = B d" by (simp add: fun_eq_iff)
      have "wf_chan e ?h' (chans s ! d) (B d)"
      proof (rule wf_chan_frame[OF wf_stateD1[OF wf dl] len])
        fix j b assume "b \<in> set (B d j)"
        then have "b \<notin> set (B c i)" using wf_stateD3[OF wf, of b d j c i] False by auto
        then show "?h' ! b = ?h ! b" by (rule out)
      qed
      then show ?thesis using False Bd oth by simp
    qed
  next
    fix d j assume "length (chans s') \<le> d"
    then show "?B' d j = []" using wf_stateD2[OF wf, of d j] c lc by simp
  next
    fix d d' j j' b assume bb: "b \<in> set (?B' d j)" "b \<in> set (?B' d' j')"
    have "b \<in> set (B d j)" "b \<in> set (B d' j')"
      using sub[OF bb(1)] sub[OF bb(2)] by simp_all
    then show "d = d'" by (rule wf_stateD3[OF wf])
  next
    fix b assume b: "b < length (nodes s')" "\<forall>d j. b \<notin> set (?B' d j)"
    show "prev (nodes s' ! b) = None \<and> next (nodes s' ! b) = None"
    proof (cases "b = node")
      case True
      then show ?thesis using un(2,3) by simp
    next
      case False
      have nb: "b \<notin> set (B d j)" for d j
        using b(2)[rule_format, of d j] False sup[of b d j] by blast
      then have "?h' ! b = ?h ! b" by (intro out) simp
      moreover have "b < length ?h" using b(1) un(1) by simp
      ultimately show ?thesis using wf_stateD4[OF wf, of b] nb by simp
    qed
  next
    fix d assume "d \<in> snd ` set (channels s')"
    then show "d < length (chans s')" using wf_stateD5[OF wf, of d] lc by simp
  next
    fix t assume "t \<in> set (timers s')"
    then show "task_chan t < length (chans s')" using wf_stateD6[OF wf, of t] lc by simp
  qed
  then show "wf_state e
           (upd_chan c
              (\<lambda>ch. ch\<lparr>fnHashMap :=
                 (if length fnArray \<le> 1 then AList.delete k (fnHashMap ch)
                  else AList.update k (take idx fnArray @ drop (Suc idx) fnArray) (fnHashMap ch))\<rparr>)
              (unlink c node s))
           (set_bucket B c i (remove1 node (B c i)))"
    by (simp add: s'_def)
  show "prev (nodes (unlink c node s) ! node) = None \<and>
        next (nodes (unlink c node s) ! node) = None"
    using un(2,3) by simp
qed

section \<open>Well-formedness under the operations\<close>

lemma wf_chan_cong:
  "priorityMatrix ch' = priorityMatrix ch \<Longrightarrow> fnHashMap ch' = fnHashMap ch \<Longrightarrow>
     wf_chan e h ch' bs = wf_chan e h ch bs"
  unfolding wf_chan_def by simp

lemma wf_state_observables [simp]:
  "wf_state e (s\<lparr>calls := x\<rparr>) B = wf_state e s B"
  "wf_state e (s\<lparr>console := y\<rparr>) B = wf_state e s B"
  "wf_state e (s\<lparr>effects := z\<rparr>) B = wf_state e s B"
  unfolding wf_state_def by simp_all

lemma wf_state_timers:
  "wf_state e s B \<Longrightarrow> (\<And>t. t \<in> set ts \<Longrightarrow> task_chan t < length (chans s)) \<Longrightarrow>
     wf_state e (s\<lparr>timers := ts\<rparr>) B"
  unfolding wf_state_def by simp

lemma wf_state_flags:
  assumes wf: "wf_state e s B"
      and "\<And>x. priorityMatrix (g x) = priorityMatrix x" "\<And>x. fnHashMap (g x) = fnHashMap x"
  shows "wf_state e (upd_chan c g s) B"
proof (rule wf_stateI)
  fix d assume "d < length (chans (upd_chan c g s))"
  then have d: "d < length (chans s)" by simp
  have "wf_chan e (nodes s) (chans (upd_chan c g s) ! d) (B d) = wf_chan e (nodes s) (chans s ! d) (B d)"
    by (rule wf_chan_cong) (simp_all add: upd_chan_keeps assms(2,3) del: chans_upd_chan)
  then show "wf_chan e (nodes (upd_chan c g s)) (chans (upd_chan c g s) ! d) (B d)"
    using wf_stateD1[OF wf d] by simp
next
  fix d i assume "length (chans (upd_chan c g s)) \<le> d"
  then show "B d i = []" using wf_stateD2[OF wf, of d i] by simp
next
  fix d d' i j a assume "a \<in> set (B d i)" "a \<in> set (B d' j)"
  then show "d = d'" by (rule wf_stateD3[OF wf])
next
  fix a assume "a < length (nodes (upd_chan c g s))" "\<forall>c i. a \<notin> set (B c i)"
  then show "prev (nodes (upd_chan c g s) ! a) = None \<and> next (nodes (upd_chan c g s) ! a) = None"
    using wf_stateD4[OF wf, of a] by simp
next
  fix d assume "d \<in> snd ` set (channels (upd_chan c g s))"
  then show "d < length (chans (upd_chan c g s))" using wf_stateD5[OF wf, of d] by simp
next
  fix t assume "t \<in> set (timers (upd_chan c g s))"
  then show "task_chan t < length (chans (upd_chan c g s))" using wf_stateD6[OF wf, of t] by simp
qed

lemma set_alist_update: "set (AList.update k v al) \<subseteq> insert (k, v) (set al)"
  by (induction al) auto

lemma set_alist_delete: "set (AList.delete k al) \<subseteq> set al"
  by (induction al) auto

lemma wf_state_new_channel:
  assumes wf: "wf_state e s B"
  shows "wf_state e (s\<lparr>chans := chans s @ [new_Channel name],
                     channels := AList.update name (length (chans s)) (channels s)\<rparr>) B"
    (is "wf_state e ?s' B")
proof (rule wf_stateI)
  fix d assume d: "d < length (chans ?s')"
  show "wf_chan e (nodes ?s') (chans ?s' ! d) (B d)"
  proof (cases "d < length (chans s)")
    case True
    then show ?thesis using wf_stateD1[OF wf True] by (simp add: nth_append)
  next
    case False
    then have e: "B d i = []" for i using wf_stateD2[OF wf, of d i] by simp
    have "chans ?s' ! d = new_Channel name" using False d by (simp add: nth_append)
    then show ?thesis using e
      by (simp add: wf_chan_def new_Channel_def matrix_get_def)
  qed
next
  fix d i assume "length (chans ?s') \<le> d"
  then show "B d i = []" using wf_stateD2[OF wf, of d i] by simp
next
  fix d d' i j a assume "a \<in> set (B d i)" "a \<in> set (B d' j)"
  then show "d = d'" by (rule wf_stateD3[OF wf])
next
  fix a assume "a < length (nodes ?s')" "\<forall>c i. a \<notin> set (B c i)"
  then show "prev (nodes ?s' ! a) = None \<and> next (nodes ?s' ! a) = None"
    using wf_stateD4[OF wf, of a] by simp
next
  fix d assume "d \<in> snd ` set (channels ?s')"
  moreover have "set (AList.update name (length (chans s)) (channels s))
                   \<subseteq> insert (name, length (chans s)) (set (channels s))"
    by (rule set_alist_update)
  ultimately have "d \<in> snd ` insert (name, length (chans s)) (set (channels s))"
    by auto
  then have "d = length (chans s) \<or> d \<in> snd ` set (channels s)" by auto
  then show "d < length (chans ?s')"
  proof
    assume "d = length (chans s)"
    then show ?thesis by simp
  next
    assume "d \<in> snd ` set (channels s)"
    then have "d < length (chans s)" by (rule wf_stateD5[OF wf])
    then show ?thesis by simp
  qed
next
  fix t assume "t \<in> set (timers ?s')"
  then show "task_chan t < length (chans ?s')" using wf_stateD6[OF wf, of t] by simp
qed

lemma wf_state_delete_channel:
  assumes wf: "wf_state e s B"
  shows "wf_state e (s\<lparr>channels := AList.delete name (channels s)\<rparr>) B"
    (is "wf_state e ?s' B")
proof (rule wf_stateI)
  fix d assume "d < length (chans ?s')"
  then show "wf_chan e (nodes ?s') (chans ?s' ! d) (B d)" using wf_stateD1[OF wf, of d] by simp
next
  fix d i assume "length (chans ?s') \<le> d"
  then show "B d i = []" using wf_stateD2[OF wf, of d i] by simp
next
  fix d d' i j a assume "a \<in> set (B d i)" "a \<in> set (B d' j)"
  then show "d = d'" by (rule wf_stateD3[OF wf])
next
  fix a assume "a < length (nodes ?s')" "\<forall>c i. a \<notin> set (B c i)"
  then show "prev (nodes ?s' ! a) = None \<and> next (nodes ?s' ! a) = None"
    using wf_stateD4[OF wf, of a] by simp
next
  fix d assume "d \<in> snd ` set (channels ?s')"
  then have "d \<in> snd ` set (channels s)"
    using set_alist_delete[of name "channels s"] by auto
  then show "d < length (chans ?s')" using wf_stateD5[OF wf, of d] by simp
next
  fix t assume "t \<in> set (timers ?s')"
  then show "task_chan t < length (chans ?s')" using wf_stateD6[OF wf, of t] by simp
qed

lemma unlink_keeps:
  "commandMask (chans (unlink c node s) ! d) = commandMask (chans s ! d)"
  "callingNode (chans (unlink c node s) ! d) = callingNode (chans s ! d)"
  "namespace (chans (unlink c node s) ! d) = namespace (chans s ! d)"
  "length (chans (unlink c node s)) = length (chans s)"
  by (simp_all add: unlink_def Let_def upd_chan_keeps del: chans_upd_chan split: option.splits)

lemma Channel_unsubscribe_frame:
  assumes "Channel_unsubscribe e c f s = (b, s')"
  shows "length (chans s') = length (chans s)" "channels s' = channels s"
    "calls s' = calls s" "console s' = console s" "effects s' = effects s"
    "commandMask (chans s' ! d) = commandMask (chans s ! d)"
    "callingNode (chans s' ! d) = callingNode (chans s ! d)"
    "namespace (chans s' ! d) = namespace (chans s ! d)"
  using assms
  by (auto simp: Channel_unsubscribe_def Let_def upd_chan_keeps unlink_keeps
           simp del: chans_upd_chan split: option.splits if_splits)

text \<open>The three outcomes of \<open>Channel.unsubscribe\<close> on a well-formed state.\<close>

lemma Channel_unsubscribe_wf:
  assumes wf: "wf_state e s B" and c: "c < length (chans s)"
  shows "(Channel_unsubscribe e c f s = (False, s) \<and> \<not> registered e s c f)
       \<or> (\<exists>node i. Channel_unsubscribe e c f s = (False, s\<lparr>timers := timers s @ [TUnsubscribe c f]\<rparr>)
             \<and> node \<in> set (B c i) \<and> fn (subscription (nodes s ! node)) = f
             \<and> callingNode (chans s ! c) = Some node
             \<and> commandMask (chans s ! c) AND SIG_INT = 0)
       \<or> (\<exists>node i s'. Channel_unsubscribe e c f s = (True, s')
             \<and> node \<in> set (B c i) \<and> fn (subscription (nodes s ! node)) = f
             \<and> \<not> (callingNode (chans s ! c) = Some node
                    \<and> commandMask (chans s ! c) AND SIG_INT = 0)
             \<and> wf_state e s' (set_bucket B c i (remove1 node (B c i)))
             \<and> prev (nodes s' ! node) = None \<and> next (nodes s' ! node) = None)"
proof (cases "map_of (fnHashMap (chans s ! c)) (hashFn e f)")
  case None
  then show ?thesis by (simp add: Channel_unsubscribe_def registered_def)
next
  case (Some fnArray)
  have inb: "n < length (nodes s)" if "n \<in> set fnArray" for n
    using wf_chanD(5)[OF wf_stateD1[OF wf c] Some that] wf_state_bound(1)[OF wf] by blast
  show ?thesis
  proof (cases "find_fn (nodes s) f fnArray 0")
    case None
    then have "\<not> registered e s c f"
      using Some by (auto simp: registered_def find_fn_None)
    then show ?thesis using None Some by (simp add: Channel_unsubscribe_def)
  next
    case (Some r)
    obtain idx node where r: "r = (idx, node)" by (cases r)
    from find_fn_Some[OF Some[unfolded r]]
    have idx: "idx < length fnArray" and node: "fnArray ! idx = node"
      and fnn: "fn (subscription (nodes s ! node)) = f" by simp_all
    let ?i = "priority (nodes s ! node)"
    note rm = wf_remove[OF wf c \<open>map_of (fnHashMap (chans s ! c)) (hashFn e f) = Some fnArray\<close>
                idx node refl]
    show ?thesis
    proof (cases "callingNode (chans s ! c) = Some node \<and> commandMask (chans s ! c) AND SIG_INT = 0")
      case True
      then have "Channel_unsubscribe e c f s = (False, s\<lparr>timers := timers s @ [TUnsubscribe c f]\<rparr>)"
        using Some r \<open>map_of (fnHashMap (chans s ! c)) (hashFn e f) = Some fnArray\<close>
        by (simp add: Channel_unsubscribe_def Let_def)
      then show ?thesis using rm(1) fnn True by blast
    next
      case False
      then have "Channel_unsubscribe e c f s =
          (True, upd_chan c
              (\<lambda>ch. ch\<lparr>fnHashMap :=
                 (if length fnArray \<le> 1 then AList.delete (hashFn e f) (fnHashMap ch)
                  else AList.update (hashFn e f) (take idx fnArray @ drop (Suc idx) fnArray) (fnHashMap ch))\<rparr>)
              (unlink c node s))"
        using Some r \<open>map_of (fnHashMap (chans s ! c)) (hashFn e f) = Some fnArray\<close>
        by (auto simp add: Channel_unsubscribe_def Let_def)
      moreover note rm(1) fnn False rm(2)
      moreover have "prev (nodes (upd_chan c
              (\<lambda>ch. ch\<lparr>fnHashMap :=
                 (if length fnArray \<le> 1 then AList.delete (hashFn e f) (fnHashMap ch)
                  else AList.update (hashFn e f) (take idx fnArray @ drop (Suc idx) fnArray) (fnHashMap ch))\<rparr>)
              (unlink c node s)) ! node) = None \<and> next (nodes (upd_chan c
              (\<lambda>ch. ch\<lparr>fnHashMap :=
                 (if length fnArray \<le> 1 then AList.delete (hashFn e f) (fnHashMap ch)
                  else AList.update (hashFn e f) (take idx fnArray @ drop (Suc idx) fnArray) (fnHashMap ch))\<rparr>)
              (unlink c node s)) ! node) = None"
        using rm(3) by simp
      ultimately show ?thesis by blast
    qed
  qed
qed

lemma Channel_subscribe_total:
  assumes wf: "wf_state e s B" and c: "c < length (chans s)"
  shows "\<exists>r s' B'. Channel_subscribe e c f p ctx s = Some (r, s') \<and> wf_state e s' B'"
proof (cases "registered e s c f")
  case True
  from Channel_subscribe_dup_wf[OF wf True] show ?thesis by blast
next
  case False
  from Channel_subscribe_wf[OF wf c False] show ?thesis by blast
qed

lemma PubSub_subscribe_wf:
  assumes wf: "wf_state e s B"
  shows "\<exists>r s' B'. PubSub_subscribe e name f prio ctx s = Some (r, s') \<and> wf_state e s' B'
                   \<and> length (chans s) \<le> length (chans s')"
proof -
  let ?p = "nat (max 0 (min (case prio of Some p \<Rightarrow> p | None \<Rightarrow> 4) 4))"
  obtain c s1 where cs: "(c, s1) = (case map_of (channels s) name of
               Some c \<Rightarrow> (c, s)
             | None \<Rightarrow>
                 (length (chans s),
                  s\<lparr>chans := chans s @ [new_Channel name],
                    channels := AList.update name (length (chans s)) (channels s)\<rparr>))"
    by (metis surj_pair)
  have w1: "wf_state e s1 B \<and> c < length (chans s1) \<and> length (chans s) \<le> length (chans s1)"
  proof (cases "map_of (channels s) name")
    case None
    then show ?thesis using cs wf_state_new_channel[OF wf, of name] by simp
  next
    case (Some d)
    then have "(name, d) \<in> set (channels s)" by (simp add: map_of_SomeD)
    then have "d \<in> snd ` set (channels s)" by force
    then show ?thesis using cs Some wf wf_stateD5[OF wf, of d] by simp
  qed
  then obtain r s' B' where r: "Channel_subscribe e c f ?p ctx s1 = Some (r, s')" "wf_state e s' B'"
    using Channel_subscribe_total by blast
  have "length (chans s') = length (chans s1)" by (rule Channel_subscribe_frame(1)[OF r(1)])
  moreover have "PubSub_subscribe e name f prio ctx s =
      (case r of Inl err \<Rightarrow> Some (Inl err, s') | Inr u \<Rightarrow> Some (Inr (c, f), s'))"
    using r(1) cs[symmetric] by (simp add: PubSub_subscribe_def Let_def split: sum.splits)
  ultimately show ?thesis using r(2) w1 by (cases r) auto
qed

lemma PubSub_unsubscribe_wf:
  assumes wf: "wf_state e s B"
  shows "\<exists>B'. wf_state e (snd (PubSub_unsubscribe e name f s)) B'"
    and "length (chans (snd (PubSub_unsubscribe e name f s))) = length (chans s)"
proof -
  show "length (chans (snd (PubSub_unsubscribe e name f s))) = length (chans s)"
    using Channel_unsubscribe_frame(1)
    by (auto simp: PubSub_unsubscribe_def Let_def split: option.splits prod.splits)
  show "\<exists>B'. wf_state e (snd (PubSub_unsubscribe e name f s)) B'"
  proof (cases "map_of (channels s) name")
    case None
    then show ?thesis using wf by (auto simp: PubSub_unsubscribe_def)
  next
    case (Some c)
    then have "(name, c) \<in> set (channels s)" by (simp add: map_of_SomeD)
    then have "c \<in> snd ` set (channels s)" by force
    then have c: "c < length (chans s)" by (rule wf_stateD5[OF wf])
    obtain b s1 where u: "Channel_unsubscribe e c f s = (b, s1)" by (cases "Channel_unsubscribe e c f s")
    have "\<exists>B1. wf_state e s1 B1"
    proof -
      from Channel_unsubscribe_wf[OF wf c, of f] u
      consider "s1 = s" | "s1 = s\<lparr>timers := timers s @ [TUnsubscribe c f]\<rparr>"
        | B1 where "wf_state e s1 B1" by auto
      then show ?thesis
      proof cases
        case 1 then show ?thesis using wf by blast
      next
        case 2
        have "wf_state e (s\<lparr>timers := timers s @ [TUnsubscribe c f]\<rparr>) B"
          using c wf_stateD6[OF wf] by (intro wf_state_timers[OF wf]) auto
        then show ?thesis using 2 by blast
      next
        case 3 then show ?thesis by blast
      qed
    qed
    then obtain B1 where B1: "wf_state e s1 B1" ..
    have "snd (PubSub_unsubscribe e name f s) = s1 \<or>
          snd (PubSub_unsubscribe e name f s) = s1\<lparr>channels := AList.delete name (channels s1)\<rparr>"
      using Some u by (simp add: PubSub_unsubscribe_def)
    then show ?thesis using B1 wf_state_delete_channel[OF B1, of name] by auto
  qed
qed

text \<open>Every call keeps the state well-formed and never shrinks the store of channels.\<close>

lemma run_wf:
  "wf_state e s B \<Longrightarrow> call_ok s k \<Longrightarrow> run n e k s = Some (r, s') \<Longrightarrow>
     (\<exists>B'. wf_state e s' B') \<and> length (chans s) \<le> length (chans s')"
proof (induction n arbitrary: s B k r s')
  case 0
  then show ?case by simp
next
  case (Suc n)
  note wf = Suc.prems(1) and ok = Suc.prems(2) and run = Suc.prems(3)
  show ?case
  proof (cases k)
    case (Handler args cs)
    show ?thesis
    proof (cases cs)
      case Nil
      then show ?thesis using run Handler wf by auto
    next
      case (Cons cmd rest)
      have hok: "call_ok t (Handler args rest)" for t by (simp add: call_ok_def)
      show ?thesis
      proof (cases cmd)
        case (Emit x)
        then have "run n e (Handler args rest) (s\<lparr>effects := effects s @ [x]\<rparr>) = Some (r, s')"
          using run Handler Cons by simp
        from Suc.IH[OF _ hok this, of B] wf show ?thesis by simp
      next
        case (ThrowErr msg)
        then show ?thesis using run Handler Cons wf by auto
      next
        case StopPropagation
        show ?thesis
        proof (cases "args \<noteq> [] \<and> (\<exists>c. last args = VChan c)")
          case True
          then obtain c where c: "last args = VChan c" by blast
          have "run n e (Handler args rest) (interrupt c s) = Some (r, s')"
            using run Handler Cons StopPropagation True c by simp
          moreover have "wf_state e (interrupt c s) B"
            unfolding interrupt_def by (rule wf_state_flags[OF wf]) simp_all
          ultimately show ?thesis using Suc.IH[OF _ hok, of "interrupt c s" B r s']
            by (simp add: interrupt_def)
        next
          case False
          then have "s' = s" using run Handler Cons StopPropagation
            by (auto split: if_splits val.splits)
          then show ?thesis using wf by auto
        qed
      next
        case (DoPublish name pargs)
        then obtain r1 s1 where r1: "run n e (PubSubPublish name pargs) s = Some (r1, s1)"
          and r2: "run n e (Handler args rest) s1 = Some (r, s') \<or> s' = s1"
          using run Handler Cons by (auto split: option.splits)
        from Suc.IH[OF wf _ r1] obtain B1 where
          B1: "wf_state e s1 B1" "length (chans s) \<le> length (chans s1)"
          by (auto simp: call_ok_def)
        from r2 show ?thesis
        proof
          assume "run n e (Handler args rest) s1 = Some (r, s')"
          from Suc.IH[OF B1(1) hok this] B1(2) show ?thesis by auto
        next
          assume "s' = s1"
          with B1 show ?thesis by auto
        qed
      next
        case (DoSubscribe name f prio ctx)
        from PubSub_subscribe_wf[OF wf, of name f prio ctx] obtain r1 s1 B1 where
          p: "PubSub_subscribe e name f prio ctx s = Some (r1, s1)" "wf_state e s1 B1"
             "length (chans s) \<le> length (chans s1)" by blast
        show ?thesis
        proof (cases r1)
          case (Inl err)
          then have "s' = s1" using run Handler Cons DoSubscribe p(1) by simp
          then show ?thesis using p by auto
        next
          case (Inr v)
          then have "run n e (Handler args rest) s1 = Some (r, s')"
            using run Handler Cons DoSubscribe p(1) by simp
          with Suc.IH[OF p(2) hok this] p(3) show ?thesis by auto
        qed
      next
        case (DoUnsubscribe name f)
        let ?s1 = "snd (PubSub_unsubscribe e name f s)"
        have r1: "run n e (Handler args rest) ?s1 = Some (r, s')"
          using run Handler Cons DoUnsubscribe by simp
        from PubSub_unsubscribe_wf[OF wf, of name f] obtain B1 where
          "wf_state e ?s1 B1" "length (chans ?s1) = length (chans s)" by blast
        with Suc.IH[OF _ hok r1, of B1] show ?thesis by auto
      next
        case (TellUnsubscribe name f)
        let ?s1 = "snd (PubSub_unsubscribe e name f s)"
        let ?b = "fst (PubSub_unsubscribe e name f s)"
        let ?s2 = "?s1\<lparr>effects := effects ?s1 @ [if ?b then ''true'' else ''false'']\<rparr>"
        have r1: "run n e (Handler args rest) ?s2 = Some (r, s')"
          using run Handler Cons TellUnsubscribe by (simp add: split_def Let_def)
        from PubSub_unsubscribe_wf[OF wf, of name f] obtain B1 where
          "wf_state e ?s1 B1" "length (chans ?s1) = length (chans s)" by blast
        then have "wf_state e ?s2 B1" "length (chans ?s2) = length (chans s)" by simp_all
        with Suc.IH[OF _ hok r1, of B1] show ?thesis by auto
      qed
    qed
  next
    case (PubSubPublish name args)
    show ?thesis
    proof (cases "map_of (channels s) name")
      case None
      then show ?thesis using run PubSubPublish wf by auto
    next
      case (Some c)
      then have "(name, c) \<in> set (channels s)" by (simp add: map_of_SomeD)
      then have "c \<in> snd ` set (channels s)" by force
      then have "call_ok s (ChannelPublish c args)"
        using wf_stateD5[OF wf] by (simp add: call_ok_def)
      moreover have "run n e (ChannelPublish c args) s = Some (r, s')"
        using run PubSubPublish Some by simp
      ultimately show ?thesis using Suc.IH[OF wf] by blast
    qed
  next
    case (ChannelPublish c args)
    then have c: "c < length (chans s)" using ok by (simp add: call_ok_def)
    show ?thesis
    proof (cases "commandMask (chans s ! c) AND PUBLISHING \<noteq> 0")
      case True
      then have "s' = s\<lparr>timers := timers s @ [TPublish c args]\<rparr>"
        using run ChannelPublish by simp
      moreover have "wf_state e (s\<lparr>timers := timers s @ [TPublish c args]\<rparr>) B"
        using c wf_stateD6[OF wf] by (intro wf_state_timers[OF wf]) auto
      ultimately show ?thesis by auto
    next
      case False
      let ?s1 = "upd_chan c (\<lambda>ch. ch\<lparr>commandMask := commandMask ch OR PUBLISHING\<rparr>) s"
      have "run n e (For c args 0) ?s1 = Some (r, s')"
        using run ChannelPublish False by simp
      moreover have "wf_state e ?s1 B" by (rule wf_state_flags[OF wf]) simp_all
      moreover have "call_ok ?s1 (For c args 0)" using c by (simp add: call_ok_def)
      ultimately show ?thesis using Suc.IH[of ?s1 B "For c args 0" r s'] by simp
    qed
  next
    case (For c args idx)
    then have c: "c < length (chans s)" using ok by (simp add: call_ok_def)
    show ?thesis
    proof (cases "idx < length (priorityMatrix (chans s ! c))")
      case True
      then have "run n e (While c args idx (priorityMatrix (chans s ! c) ! idx)) s = Some (r, s')"
        using run For by simp
      moreover have "call_ok s (While c args idx (priorityMatrix (chans s ! c) ! idx))"
        using c by (simp add: call_ok_def)
      ultimately show ?thesis using Suc.IH[OF wf] by blast
    next
      case False
      then have "s' = upd_chan c (\<lambda>ch. ch\<lparr>commandMask := commandMask ch AND CLEAR_BITS\<rparr>) s"
        using run For by simp
      moreover have "wf_state e (upd_chan c (\<lambda>ch. ch\<lparr>commandMask := commandMask ch AND CLEAR_BITS\<rparr>) s) B"
        by (rule wf_state_flags[OF wf]) simp_all
      ultimately show ?thesis by auto
    qed
  next
    case (While c args idx node)
    then have c: "c < length (chans s)" using ok by (simp add: call_ok_def)
    show ?thesis
    proof (cases node)
      case None
      then have "run n e (For c args (Suc idx)) s = Some (r, s')" using run While by simp
      moreover have "call_ok s (For c args (Suc idx))" using c by (simp add: call_ok_def)
      ultimately show ?thesis using Suc.IH[OF wf] by blast
    next
      case (Some a)
      show ?thesis
      proof (cases "commandMask (chans s ! c) AND SIG_INT \<noteq> 0")
        case True
        then have "s' = upd_chan c (\<lambda>ch. ch\<lparr>commandMask := commandMask ch AND CLEAR_BITS\<rparr>) s"
          using run While Some by simp
        moreover have "wf_state e (upd_chan c (\<lambda>ch. ch\<lparr>commandMask := commandMask ch AND CLEAR_BITS\<rparr>) s) B"
          by (rule wf_state_flags[OF wf]) simp_all
        ultimately show ?thesis by auto
      next
        case False
        let ?s1 = "upd_chan c (\<lambda>ch. ch\<lparr>callingNode := Some a\<rparr>) s"
        let ?f = "fn (subscription (nodes ?s1 ! a))"
        let ?s2 = "?s1\<lparr>calls := calls ?s1 @ [(?f, args @ [VChan c])]\<rparr>"
        from run While Some False obtain r3 s3 where
          h: "run n e (Handler (args @ [VChan c]) (fn_body e ?f)) ?s2 = Some (r3, s3)"
          by (auto simp: Let_def split: option.splits)
        let ?s4 = "case r3 of None \<Rightarrow> s3 | Some err \<Rightarrow> s3\<lparr>console := console s3 @ [(err, ?f)]\<rparr>"
        let ?s5 = "upd_chan c (\<lambda>ch. ch\<lparr>callingNode := None\<rparr>) ?s4"
        have w: "run n e (While c args idx (next (nodes ?s5 ! a))) ?s5 = Some (r, s') \<or> s' = s3"
          using run While Some False h
          by (cases r3) (auto simp: Let_def split: option.splits)
        have "wf_state e ?s1 B" by (rule wf_state_flags[OF wf]) simp_all
        then have "wf_state e ?s2 B" by simp
        from Suc.IH[OF this _ h] obtain B3 where
          B3: "wf_state e s3 B3" "length (chans s) \<le> length (chans s3)"
          by (auto simp: call_ok_def)
        then have "wf_state e ?s4 B3" by (cases r3) simp_all
        then have w5: "wf_state e ?s5 B3" by (rule wf_state_flags) simp_all
        have l5: "length (chans ?s5) = length (chans s3)" by (cases r3) simp_all
        then have ok5: "call_ok ?s5 (While c args idx (next (nodes ?s5 ! a)))"
          using c B3(2) by (simp add: call_ok_def)
        from w show ?thesis
        proof
          assume "run n e (While c args idx (next (nodes ?s5 ! a))) ?s5 = Some (r, s')"
          from Suc.IH[OF w5 ok5 this] l5 B3(2) show ?thesis by auto
        next
          assume "s' = s3"
          with B3 show ?thesis by auto
        qed
      qed
    qed
  qed
qed

section \<open>From well-formedness to the invariant of the links\<close>

lemma wf_init: "wf_state e init_state (\<lambda>c i. [])"
  by (simp add: wf_state_def init_state_def)

lemma bucket_nodes_eq:
  assumes wf: "wf_state e s B" and c: "c < length (chans s)"
  shows "bucket_nodes s c i = B c i"
proof -
  note wc = wf_stateD1[OF wf c]
  have "\<forall>a \<in> set (B c i). a < length (nodes s)"
    using wf_state_bound(1)[OF wf] by blast
  then have "length (B c i) \<le> length (nodes s)"
    by (rule distinct_bounded_length[OF wf_chanD(3)[OF wc]])
  then show ?thesis
    unfolding bucket_nodes_def by (rule walk_chain[OF wf_chanD(1)[OF wc]])
qed

lemma bucket_empty_beyond:
  assumes wf: "wf_state e s B" and c: "c < length (chans s)"
      and i: "length (priorityMatrix (chans s ! c)) \<le> i"
  shows "B c i = []"
  using wf_chanD(1)[OF wf_stateD1[OF wf c], of i] i by (simp add: matrix_get_def)

lemma attached_iff:
  assumes wf: "wf_state e s B"
  shows "attached s a \<longleftrightarrow> (\<exists>c i. a \<in> set (B c i))"
proof
  assume "attached s a"
  then obtain c i where "c < length (chans s)" "a \<in> set (bucket_nodes s c i)"
    by (auto simp: attached_def)
  then have "a \<in> set (B c i)" using bucket_nodes_eq[OF wf] by simp
  then show "\<exists>c i. a \<in> set (B c i)" by blast
next
  assume "\<exists>c i. a \<in> set (B c i)"
  then obtain c i where a: "a \<in> set (B c i)" by blast
  have c: "c < length (chans s)" by (rule wf_state_bound(2)[OF wf a])
  have "i < length (priorityMatrix (chans s ! c))"
    using bucket_empty_beyond[OF wf c, of i] a by (cases "i < length (priorityMatrix (chans s ! c))") auto
  moreover have "a \<in> set (bucket_nodes s c i)" using a bucket_nodes_eq[OF wf c] by simp
  ultimately show "attached s a"
    using c unfolding attached_def by blast
qed

lemma wf_dll_invariant:
  assumes wf: "wf_state e s B"
  shows "dll_invariant s"
  unfolding dll_invariant_def
proof (intro allI impI conjI)
  fix a p assume a: "a < length (nodes s)" and p: "prev (nodes s ! a) = Some p"
  then have "\<not> (\<forall>c i. a \<notin> set (B c i))" using wf_stateD4[OF wf a] by auto
  then obtain c i where ai: "a \<in> set (B c i)" by blast
  then obtain xs ys where B: "B c i = xs @ a # ys" by (auto dest: split_list)
  have c: "c < length (chans s)" by (rule wf_state_bound(2)[OF wf ai])
  have chn: "chain (nodes s) None (matrix_get (priorityMatrix (chans s ! c)) i) (xs @ a # ys) None"
    using wf_chanD(1)[OF wf_stateD1[OF wf c], of i] B by simp
  from chain_mid(2)[OF chn] p have xs: "xs \<noteq> []" "p = last xs" by (auto split: if_splits)
  then have "p \<in> set (B c i)" using B by simp
  then show "p < length (nodes s)" by (rule wf_state_bound(1)[OF wf])
  show "next (nodes s ! p) = Some a" using chain_mid(4)[OF chn] xs by simp
next
  fix a n assume a: "a < length (nodes s)" and n: "next (nodes s ! a) = Some n"
  then have "\<not> (\<forall>c i. a \<notin> set (B c i))" using wf_stateD4[OF wf a] by auto
  then obtain c i where ai: "a \<in> set (B c i)" by blast
  then obtain xs ys where B: "B c i = xs @ a # ys" by (auto dest: split_list)
  have c: "c < length (chans s)" by (rule wf_state_bound(2)[OF wf ai])
  have chn: "chain (nodes s) None (matrix_get (priorityMatrix (chans s ! c)) i) (xs @ a # ys) None"
    using wf_chanD(1)[OF wf_stateD1[OF wf c], of i] B by simp
  from chain_mid(3)[OF chn] n have ys: "ys \<noteq> []" "n = hd ys" by (auto split: if_splits)
  then have "n \<in> set (B c i)" using B by simp
  then show "n < length (nodes s)" by (rule wf_state_bound(1)[OF wf])
  show "prev (nodes s ! n) = Some a" using chain_mid(5)[OF chn] ys by simp
next
  fix a assume a: "a < length (nodes s)" and "\<not> attached s a"
  then have "\<forall>c i. a \<notin> set (B c i)" using attached_iff[OF wf] by blast
  then show "prev (nodes s ! a) = None" "next (nodes s ! a) = None"
    using wf_stateD4[OF wf a] by simp_all
qed

lemma run_task_wf:
  assumes wf: "wf_state e s B" and t: "task_chan t < length (chans s)"
      and r: "run_task n e t s = Some s'"
  shows "\<exists>B'. wf_state e s' B'"
proof (cases t)
  case (TPublish c args)
  then obtain r' where "run n e (ChannelPublish c args) s = Some (r', s')"
    using r by (auto simp: run_task_def Channel_publish_def)
  moreover have "call_ok s (ChannelPublish c args)" using t TPublish by (simp add: call_ok_def)
  ultimately show ?thesis using run_wf[OF wf] by blast
next
  case (TUnsubscribe c f)
  then have c: "c < length (chans s)" and s': "s' = snd (Channel_unsubscribe e c f s)"
    using t r by (simp_all add: run_task_def)
  have "wf_state e (s\<lparr>timers := timers s @ [TUnsubscribe c f]\<rparr>) B"
    using c wf_stateD6[OF wf] by (intro wf_state_timers[OF wf]) auto
  then show ?thesis using Channel_unsubscribe_wf[OF wf c, of f] wf s' by auto
qed

lemma run_timers_wf:
  "wf_state e s B \<Longrightarrow> run_timers k n e s = Some s' \<Longrightarrow> \<exists>B'. wf_state e s' B'"
proof (induction k arbitrary: s B)
  case 0
  then show ?case by auto
next
  case (Suc k)
  show ?case
  proof (cases "timers s")
    case Nil
    then show ?thesis using Suc.prems by auto
  next
    case (Cons t ts)
    then obtain s1 where s1: "run_task n e t (s\<lparr>timers := ts\<rparr>) = Some s1"
      and rest: "run_timers k n e s1 = Some s'"
      using Suc.prems(2) by (auto split: option.splits)
    have w: "wf_state e (s\<lparr>timers := ts\<rparr>) B"
      using wf_stateD6[OF Suc.prems(1)] Cons by (intro wf_state_timers[OF Suc.prems(1)]) auto
    have "task_chan t < length (chans (s\<lparr>timers := ts\<rparr>))"
      using wf_stateD6[OF Suc.prems(1), of t] Cons by simp
    from run_task_wf[OF w this s1] obtain B1 where "wf_state e s1 B1" ..
    from Suc.IH[OF this rest] show ?thesis .
  qed
qed

lemma wf_subscribed: "\<exists>B. wf_state client (subscribed f) B" if "f \<in> {1, 2, 3, 4, 5}"
proof -
  have "PubSub_subscribe client ''foo'' f None VUndefined init_state = Some (Inr (0, f), subscribed f)"
    using that subscribed_reached by auto
  then show ?thesis
    using PubSub_subscribe_wf[OF wf_init, of client "''foo''" f None VUndefined] by auto
qed

section \<open>The claims\<close>





text \<open>
  C6. The claim: subscribing a function that is already registered on the channel raises
  the duplicate-subscription error. \<open>Channel.subscribe\<close> builds the message of that error
  with \<open>${node.subscription}\<close>, the \<open>toString\<close> of the subscription already registered,
  and \<open>toString\<close> reads \<open>this.context.constructor.name\<close>. Evaluated here: handler 9 is
  subscribed with a context made by \<open>Object.create(null)\<close>, which succeeds, and is
  subscribed again; the second call throws a \<open>TypeError\<close>, not the duplicate error.
\<close>

theorem duplicate_subscription_type_error:
  "(case PubSub_subscribe client ''foo'' 9 None (VBare []) init_state of
      Some (Inr h, s) \<Rightarrow> map_option fst (PubSub_subscribe client ''foo'' 9 None VUndefined s)
    | _ \<Rightarrow> None) = Some (Inl TypeError)"
  by (simp add: model_defs client_def)

text \<open>
  C8. The claim: when a handler throws, the error is caught and logged and the remaining
  handlers of the publish still run. The \<open>catch\<close> of \<open>Channel.publish\<close> builds the line
  it logs with \<open>+ node.subscription\<close>, the \<open>toString\<close> of the subscription, which
  reads \<open>this.context.constructor.name\<close>. Evaluated here: handler 1, which throws, is
  subscribed with a context made by \<open>Object.create(null)\<close>, and handler 9 after it; the
  publish throws a \<open>TypeError\<close> to its caller, only handler 1 was called and nothing was
  logged.
\<close>

theorem handler_error_stops_siblings:
  "(case exec_cmds 10 client []
           [DoSubscribe ''foo'' 1 None (VBare []), DoSubscribe ''foo'' 9 None VUndefined]
           init_state of
      Some (None, s) \<Rightarrow>
        map_option (\<lambda>(r, s'). (r, calls s', console s')) (PubSub_publish 30 client ''foo'' [] s)
    | _ \<Rightarrow> None) = Some (Some TypeError, [(1, [VChan 0])], [])"
  by (simp add: model_defs client_def)

text \<open>
  C5. The claim: after a handler has called \<open>stopPropagation\<close>, no later handler is
  called and the state of the channel is reset to idle. Evaluated here: handler 8, which
  interrupts and then throws, is subscribed with a context made by
  \<open>Object.create(null)\<close>; the \<open>catch\<close> of \<open>Channel.publish\<close> throws a \<open>TypeError\<close>
  while building its log line, and the publish ends with both flags of the channel still
  set and the node still the calling node. A publish on the channel after that is queued,
  in this turn and in every later one.
\<close>

theorem interrupted_channel_not_reset:
  "(case exec_cmds 10 client [] [DoSubscribe ''foo'' 8 None (VBare [])] init_state of
      Some (None, s) \<Rightarrow>
        (case PubSub_publish 30 client ''foo'' [] s of
           Some (r, s') \<Rightarrow>
             Some (r, commandMask (chans s' ! 0), callingNode (chans s' ! 0), calls s',
                   map_option (\<lambda>(r', s''). (r', timers s'', calls s''))
                     (PubSub_publish 30 client ''foo'' [] s'))
         | None \<Rightarrow> None)
    | _ \<Rightarrow> None) =
   Some (Some TypeError, SIG_INT OR PUBLISHING, Some 0, [(8, [VChan 0])],
         Some (None, [TPublish 0 []], [(8, [VChan 0])]))"
  by (simp add: model_defs client_def)

text \<open>
  C9. On a well-formed state, every \<open>subscribe\<close>, \<open>unsubscribe\<close> and \<open>publish\<close> of
  the \<open>PubSub\<close>, and every run of queued timers, gives a well-formed state again, and a
  well-formed state satisfies the invariant of the links: \<open>node.prev.next == node\<close> and
  \<open>node.next.prev == node\<close> whenever the neighbour exists, and a node that is in no
  bucket has \<open>prev\<close> and \<open>next\<close> cleared. \<open>subscribe\<close> always returns; \<open>publish\<close> is
  taken for any fuel with which it returns. The new \<open>PubSub\<close> is well-formed.
\<close>


theorem dll_invariant_preserved:
  assumes "wf_state e s B"
  shows "dll_invariant s
       \<and> (\<exists>r s' B'. PubSub_subscribe e name f prio ctx s = Some (r, s') \<and> wf_state e s' B'
                      \<and> dll_invariant s')
       \<and> (\<exists>B'. wf_state e (snd (PubSub_unsubscribe e name f s)) B')
       \<and> dll_invariant (snd (PubSub_unsubscribe e name f s))
       \<and> (\<forall>n r s'. PubSub_publish n e name args s = Some (r, s') \<longrightarrow>
             (\<exists>B'. wf_state e s' B') \<and> dll_invariant s')
       \<and> (\<forall>k n s'. run_timers k n e s = Some s' \<longrightarrow>
             (\<exists>B'. wf_state e s' B') \<and> dll_invariant s')"
proof (intro conjI allI impI)
  show "dll_invariant s" by (rule wf_dll_invariant[OF assms])
  from PubSub_subscribe_wf[OF assms, of name f prio ctx]
  show "\<exists>r s' B'. PubSub_subscribe e name f prio ctx s = Some (r, s') \<and> wf_state e s' B'
                      \<and> dll_invariant s'"
    using wf_dll_invariant by blast
  from PubSub_unsubscribe_wf(1)[OF assms, of name f]
  show "\<exists>B'. wf_state e (snd (PubSub_unsubscribe e name f s)) B'" .
  then show "dll_invariant (snd (PubSub_unsubscribe e name f s))"
    using wf_dll_invariant by blast
next
  fix n r s' assume "PubSub_publish n e name args s = Some (r, s')"
  then have "run n e (PubSubPublish name args) s = Some (r, s')"
    by (simp add: PubSub_publish_def)
  from run_wf[OF assms _ this] show w: "\<exists>B'. wf_state e s' B'" by (simp add: call_ok_def)
  then show "dll_invariant s'" using wf_dll_invariant by blast
next
  fix k n s' assume "run_timers k n e s = Some s'"
  from run_timers_wf[OF assms this] show w: "\<exists>B'. wf_state e s' B'" .
  then show "dll_invariant s'" using wf_dll_invariant by blast
qed

theorem dll_invariant_preserved_witness:
  "exec_cmds 10 client []
     [DoSubscribe ''foo'' 9 None VUndefined, DoSubscribe ''foo'' 10 None VUndefined,
      DoSubscribe ''foo'' 11 None VUndefined] init_state = Some (None, three_subscribed)
   \<and> (\<exists>B. wf_state client three_subscribed B)
   \<and> dll_invariant three_subscribed
   \<and> bucket_nodes three_subscribed 0 4 = [0, 1, 2]
   \<and> fst (PubSub_unsubscribe client ''foo'' 10 three_subscribed)
   \<and> bucket_nodes (snd (PubSub_unsubscribe client ''foo'' 10 three_subscribed)) 0 4 = [0, 2]
   \<and> map (\<lambda>node. (prev node, next node))
         (nodes (snd (PubSub_unsubscribe client ''foo'' 10 three_subscribed))) =
       [(None, Some 2), (None, None), (Some 0, None)]
   \<and> dll_invariant (snd (PubSub_unsubscribe client ''foo'' 10 three_subscribed))
   \<and> (\<exists>h s'. PubSub_subscribe client ''foo'' 12 None VUndefined three_subscribed =
                  Some (Inr h, s')
              \<and> map (\<lambda>node. (prev node, next node)) (nodes s') =
                  [(None, Some 1), (Some 0, Some 2), (Some 1, Some 3), (Some 2, None)]
              \<and> dll_invariant s')
   \<and> PubSub_publish 30 client ''foo'' [] three_subscribed =
       Some (None, three_subscribed\<lparr>calls := [(9, [VChan 0]), (10, [VChan 0]), (11, [VChan 0])]\<rparr>)
   \<and> dll_invariant
        (three_subscribed\<lparr>calls := [(9, [VChan 0]), (10, [VChan 0]), (11, [VChan 0])]\<rparr>)"
proof -
  have r: "exec_cmds 10 client []
     [DoSubscribe ''foo'' 9 None VUndefined, DoSubscribe ''foo'' 10 None VUndefined,
      DoSubscribe ''foo'' 11 None VUndefined] init_state = Some (None, three_subscribed)"
    by (simp add: model_defs client_def three_subscribed_def)
  then have "run 10 client
     (Handler [] [DoSubscribe ''foo'' 9 None VUndefined, DoSubscribe ''foo'' 10 None VUndefined,
                  DoSubscribe ''foo'' 11 None VUndefined]) init_state = Some (None, three_subscribed)"
    unfolding exec_cmds_def .
  from run_wf[OF wf_init _ this] have w: "\<exists>B. wf_state client three_subscribed B"
    by (simp add: call_ok_def)
  then obtain B where B: "wf_state client three_subscribed B" ..
  have b: "bucket_nodes three_subscribed 0 4 = [0, 1, 2]"
    by (simp add: bucket_nodes_def three_subscribed_def matrix_get_def)
  have u: "fst (PubSub_unsubscribe client ''foo'' 10 three_subscribed)"
    "bucket_nodes (snd (PubSub_unsubscribe client ''foo'' 10 three_subscribed)) 0 4 = [0, 2]"
    "map (\<lambda>node. (prev node, next node))
         (nodes (snd (PubSub_unsubscribe client ''foo'' 10 three_subscribed))) =
       [(None, Some 2), (None, None), (Some 0, None)]"
    by (simp_all add: model_defs client_def three_subscribed_def bucket_nodes_def)
  have s: "\<exists>h s'. PubSub_subscribe client ''foo'' 12 None VUndefined three_subscribed =
                  Some (Inr h, s')
              \<and> map (\<lambda>node. (prev node, next node)) (nodes s') =
                  [(None, Some 1), (Some 0, Some 2), (Some 1, Some 3), (Some 2, None)]"
    by (simp add: model_defs client_def three_subscribed_def)
  have p: "PubSub_publish 30 client ''foo'' [] three_subscribed =
       Some (None, three_subscribed\<lparr>calls := [(9, [VChan 0]), (10, [VChan 0]), (11, [VChan 0])]\<rparr>)"
    by (simp add: model_defs client_def three_subscribed_def)
  note t10 = dll_invariant_preserved[OF B, of "''foo''" 10 None VUndefined "[]"]
  note t12 = dll_invariant_preserved[OF B, of "''foo''" 12 None VUndefined "[]"]
  have d0: "dll_invariant three_subscribed" by (rule t10[THEN conjunct1])
  have d1: "dll_invariant (snd (PubSub_unsubscribe client ''foo'' 10 three_subscribed))"
    by (rule t10[THEN conjunct2, THEN conjunct2, THEN conjunct2, THEN conjunct1])
  from s obtain h s' where
    s': "PubSub_subscribe client ''foo'' 12 None VUndefined three_subscribed = Some (Inr h, s')"
        "map (\<lambda>node. (prev node, next node)) (nodes s') =
           [(None, Some 1), (Some 0, Some 2), (Some 1, Some 3), (Some 2, None)]"
    by (elim exE conjE)
  from t12[THEN conjunct2, THEN conjunct1] obtain r2 s2 where
    "PubSub_subscribe client ''foo'' 12 None VUndefined three_subscribed = Some (r2, s2)"
    "dll_invariant s2"
    by (elim exE conjE)
  with s'(1) have "dll_invariant s'" by simp
  with s' have d2: "\<exists>h s'. PubSub_subscribe client ''foo'' 12 None VUndefined three_subscribed =
                  Some (Inr h, s')
              \<and> map (\<lambda>node. (prev node, next node)) (nodes s') =
                  [(None, Some 1), (Some 0, Some 2), (Some 1, Some 3), (Some 2, None)]
              \<and> dll_invariant s'"
    by (intro exI conjI)
  have d3: "dll_invariant
        (three_subscribed\<lparr>calls := [(9, [VChan 0]), (10, [VChan 0]), (11, [VChan 0])]\<rparr>)"
    using t12[THEN conjunct2, THEN conjunct2, THEN conjunct2, THEN conjunct2, THEN conjunct1,
              THEN spec, THEN spec, THEN spec, THEN mp, OF p]
    by (rule conjunct2)
  show ?thesis
    by (intro conjI) (rule r w d0 b u d1 d2 p d3)+
qed

end
